theory Spec2Isabelle
  imports Main "HOL-Library.Char_ord" "HOL-Library.List_Lexorder"
begin

section \<open>The standard-library operations used by \<open>extract_fit_results.cc\<close>\<close>

text \<open>
  \<open>std::string\<close> is a byte string, here \<^typ>\<open>string\<close>. The only failure the script can
  raise itself is the \<open>std::out_of_range\<close> of \<open>std::string::substr\<close>, thrown when the
  start position lies beyond the size of the string.
\<close>

datatype error = OutOfRange

text \<open>\<open>s.substr(pos, n)\<close> and \<open>s.substr(pos)\<close>.\<close>

definition substr :: "string \<Rightarrow> nat \<Rightarrow> nat \<Rightarrow> error + string" where
  "substr s pos n = (if length s < pos then Inl OutOfRange else Inr (take n (drop pos s)))"

definition substr_to_end :: "string \<Rightarrow> nat \<Rightarrow> error + string" where
  "substr_to_end s pos = (if length s < pos then Inl OutOfRange else Inr (drop pos s))"

text \<open>
  \<open>s.find(pat)\<close> and \<open>s.rfind(pat)\<close>: the first and the last position at which \<open>pat\<close>
  occurs in \<open>s\<close>; \<open>None\<close> stands for \<open>std::string::npos\<close>.
\<close>

definition match_at :: "string \<Rightarrow> string \<Rightarrow> nat \<Rightarrow> bool" where
  "match_at s pat i = (take (length pat) (drop i s) = pat)"

definition str_find :: "string \<Rightarrow> string \<Rightarrow> nat option" where
  "str_find s pat = List.find (match_at s pat) [0..<Suc (length s)]"

definition str_rfind :: "string \<Rightarrow> string \<Rightarrow> nat option" where
  "str_rfind s pat = List.find (match_at s pat) (rev [0..<Suc (length s)])"

text \<open>
  \<open>s[0]\<close>: \<open>operator[]\<close> at the position \<open>size()\<close> is defined and yields the null
  character, which is what \<open>s[0]\<close> of the empty string is.
\<close>

definition char_at0 :: "string \<Rightarrow> char" where
  "char_at0 s = (case s of [] \<Rightarrow> CHR 0x00 | c # _ \<Rightarrow> c)"

text \<open>
  \<open>std::map<K, V>\<close> keeps its entries ordered by key and is iterated in ascending key
  order; for \<open>std::string\<close> keys this is the byte-wise lexicographic order, which is the
  order of \<^typ>\<open>string\<close> here. The map is the list of its entries in iteration order.
  \<open>map_insert\<close> is the assignment \<open>m[k] = v\<close>, \<open>map_at\<close> is the read of \<open>m[k]\<close> for a
  vector- or map-valued entry (a missing key reads as the default-constructed, empty
  value) and \<open>map_find\<close> is \<open>m.find(k)\<close>.
\<close>

fun map_insert :: "'k::linorder \<Rightarrow> 'v \<Rightarrow> ('k \<times> 'v) list \<Rightarrow> ('k \<times> 'v) list" where
  "map_insert k v [] = [(k, v)]"
| "map_insert k v ((k', v') # m) =
     (if k < k' then (k, v) # (k', v') # m
      else if k = k' then (k, v) # m
      else (k', v') # map_insert k v m)"

definition map_find :: "'k \<Rightarrow> ('k \<times> 'v) list \<Rightarrow> 'v option" where
  "map_find k m = map_of m k"

definition map_at :: "'k \<Rightarrow> ('k \<times> 'v list) list \<Rightarrow> 'v list" where
  "map_at k m = (case map_of m k of None \<Rightarrow> [] | Some v \<Rightarrow> v)"

text \<open>
  A range-\<open>for\<close> loop whose body may throw: the first exception leaves the loop.
\<close>

fun foldE :: "('a \<Rightarrow> 's \<Rightarrow> error + 's) \<Rightarrow> 'a list \<Rightarrow> 's \<Rightarrow> error + 's" where
  "foldE f [] s = Inr s"
| "foldE f (x # xs) s = (case f x s of Inl e \<Rightarrow> Inl e | Inr s' \<Rightarrow> foldE f xs s')"

text \<open>
  \<open>while (iss >> file)\<close> on a \<open>std::istringstream\<close>: the whitespace-separated words of
  the argument.
\<close>

definition is_space :: "char \<Rightarrow> bool" where
  "is_space c = (c \<in> set [CHR '' '', CHR 0x09, CHR 0x0A, CHR 0x0B, CHR 0x0C, CHR 0x0D])"

fun words_from :: "string \<Rightarrow> string \<Rightarrow> string list" where
  "words_from cur [] = (if cur = [] then [] else [cur])"
| "words_from cur (c # cs) =
     (if is_space c then (if cur = [] then words_from [] cs else cur # words_from [] cs)
      else words_from (cur @ [c]) cs)"

section \<open>The external fit-results handle\<close>

text \<open>
  \<open>FitResults\<close> belongs to AmpTools; the script only calls its accessors. The numbers it
  returns are opaque here (type \<open>'r\<close>); a \<open>std::pair\<close> is a pair and the complex
  production parameter is the pair of its real and imaginary part. \<open>intensity_all\<close> is the
  overload \<open>intensity(bool)\<close>.
\<close>

record 'r FitResults =
  valid :: bool
  eMatrixStatus :: 'r
  lastMinuitCommandStatus :: 'r
  likelihood :: 'r
  intensity_all :: "bool \<Rightarrow> 'r \<times> 'r"
  intensity :: "string list \<Rightarrow> bool \<Rightarrow> 'r \<times> 'r"
  phaseDiff :: "string \<Rightarrow> string \<Rightarrow> 'r \<times> 'r"
  reactionList :: "string list"
  ampList :: "string \<Rightarrow> string list"
  parNameList :: "string list"
  parValue :: "string \<Rightarrow> 'r"
  parError :: "string \<Rightarrow> 'r"
  scaledProductionParameter :: "string \<Rightarrow> 'r \<times> 'r"

section \<open>\<open>parse_amplitude\<close>\<close>

text \<open>
  \<open>amplitude.rfind("::") + 2\<close>. When the separator is absent \<open>rfind\<close> returns \<open>npos\<close>, the
  largest \<open>size_t\<close>, and the unsigned addition wraps around to \<open>1\<close>.
\<close>

definition segment_start :: "string \<Rightarrow> nat" where
  "segment_start amplitude = (case str_rfind amplitude ''::'' of None \<Rightarrow> 1 | Some i \<Rightarrow> i + 2)"

text \<open>\<open>amplitude.substr(amplitude.rfind("::") + 2)\<close>, the trailing \<open>eJPmL\<close> segment.\<close>

definition trailing_segment :: "string \<Rightarrow> error + string" where
  "trailing_segment amplitude = substr_to_end amplitude (segment_start amplitude)"

definition parse_amplitude :: "string \<Rightarrow> error + (string \<times> string \<times> string \<times> string)" where
  "parse_amplitude amplitude =
     (case trailing_segment amplitude of Inl err \<Rightarrow> Inl err | Inr eJPmL \<Rightarrow>
      (case substr eJPmL 0 1 of Inl err \<Rightarrow> Inl err | Inr e \<Rightarrow>
      (case substr eJPmL 1 2 of Inl err \<Rightarrow> Inl err | Inr JP \<Rightarrow>
      (case substr eJPmL 3 1 of Inl err \<Rightarrow> Inl err | Inr m \<Rightarrow>
      (case substr_to_end eJPmL 4 of Inl err \<Rightarrow> Inl err | Inr L \<Rightarrow>
         Inr (e, JP, m, L))))))"

section \<open>\<open>fill_maps\<close>\<close>

record 'r maps =
  standard_results :: "(string \<times> 'r) list"
  production_coefficients :: "(string \<times> ('r \<times> 'r)) list"
  coherent_sums :: "(string \<times> (string \<times> string list) list) list"
  phase_diffs :: "(string \<times> (string \<times> string)) list"

text \<open>
  The test \<open>amplitude.find("Bkgd") != npos || amplitude.find("iso") != npos\<close>.
\<close>

definition is_bkgd :: "string \<Rightarrow> bool" where
  "is_bkgd amplitude = (str_find amplitude ''Bkgd'' \<noteq> None \<or> str_find amplitude ''iso'' \<noteq> None)"

text \<open>\<open>coherent_sums[tag][key].push_back(amplitude)\<close>.\<close>

definition push_sum ::
  "string \<Rightarrow> string \<Rightarrow> string \<Rightarrow> (string \<times> (string \<times> string list) list) list
     \<Rightarrow> (string \<times> (string \<times> string list) list) list" where
  "push_sum tag key amplitude cs =
     (let sum_map = map_at tag cs
      in map_insert tag (map_insert key (map_at key sum_map @ [amplitude]) sum_map) cs)"

text \<open>The body of the innermost loop, over \<open>pd_amplitude\<close>.\<close>

definition pd_body ::
  "string \<Rightarrow> string \<Rightarrow> string \<Rightarrow> (string \<times> (string \<times> string)) list
     \<Rightarrow> error + (string \<times> (string \<times> string)) list" where
  "pd_body amplitude eJPmL pd_amplitude pd =
     (if pd_amplitude = amplitude then Inr pd
      else if is_bkgd pd_amplitude then Inr pd
      else (case trailing_segment pd_amplitude of Inl err \<Rightarrow> Inl err | Inr pd_eJPmL \<Rightarrow>
        if map_find (pd_eJPmL @ ''_'' @ eJPmL) pd \<noteq> None then Inr pd
        else if char_at0 eJPmL \<noteq> char_at0 pd_eJPmL then Inr pd
        else Inr (map_insert (eJPmL @ ''_'' @ pd_eJPmL) (amplitude, pd_amplitude) pd)))"

text \<open>
  Modelled from the spec: the variable \<open>eJPmL\<close> that the body of the amplitude loop
  reads and that \<open>fill_maps\<close> never declares. The spec names it the trailing \<open>eJPmL\<close>
  segment of the amplitude (the phase-difference keys are \<open><eJPmL_A>_<eJPmL_B>\<close>); this
  is the expression that \<open>parse_amplitude\<close> binds to its own local of that name and that
  the inner loop binds to \<open>pd_eJPmL\<close>. Where the body reads it, \<open>parse_amplitude\<close> has
  returned, and then it is \<open>e + JP + m + L\<close> as well.
\<close>

definition eJPmL_of :: "string \<Rightarrow> error + string" where
  "eJPmL_of amplitude = trailing_segment amplitude"

text \<open>The body of the loop over the amplitudes of one reaction.\<close>

definition amp_body :: "'r FitResults \<Rightarrow> string \<Rightarrow> string \<Rightarrow> 'r maps \<Rightarrow> error + 'r maps" where
  "amp_body results reaction amplitude M =
     (if is_bkgd amplitude
      then Inr (M\<lparr>coherent_sums := push_sum ''eJPmL'' ''Bkgd'' amplitude (coherent_sums M)\<rparr>)
      else (case parse_amplitude amplitude of Inl err \<Rightarrow> Inl err | Inr (e, JP, m, L) \<Rightarrow>
           (case eJPmL_of amplitude of Inl err \<Rightarrow> Inl err | Inr eJPmL \<Rightarrow>
        let pc = map_insert eJPmL (scaledProductionParameter results amplitude)
                   (production_coefficients M);
            cs1 = push_sum ''eJPmL'' eJPmL amplitude (coherent_sums M);
            cs2 = push_sum ''JPmL'' (JP @ m @ L) amplitude cs1;
            cs3 = push_sum ''eJPL'' (e @ JP @ L) amplitude cs2;
            cs4 = push_sum ''JPL'' (JP @ L) amplitude cs3;
            cs5 = push_sum ''eJP'' (e @ JP) amplitude cs4;
            cs6 = push_sum ''JP'' JP amplitude cs5;
            cs7 = push_sum ''e'' e amplitude cs6
        in (case foldE (pd_body amplitude eJPmL) (ampList results reaction) (phase_diffs M) of
              Inl err \<Rightarrow> Inl err
            | Inr pd \<Rightarrow>
                Inr (M\<lparr>production_coefficients := pc, coherent_sums := cs7,
                       phase_diffs := pd\<rparr>)))))"

definition fill_maps :: "'r FitResults \<Rightarrow> 'r maps \<Rightarrow> error + 'r maps" where
  "fill_maps results M =
     (let sr1 = map_insert ''eMatrixStatus'' (eMatrixStatus results) (standard_results M);
          sr2 = map_insert ''lastMinuitCommandStatus'' (lastMinuitCommandStatus results) sr1;
          sr3 = map_insert ''likelihood'' (likelihood results) sr2;
          sr4 = map_insert ''detected_events'' (fst (intensity_all results False)) sr3;
          sr5 = map_insert ''detected_events_err'' (snd (intensity_all results False)) sr4;
          sr6 = map_insert ''generated_events'' (fst (intensity_all results True)) sr5;
          sr7 = map_insert ''generated_events_err'' (snd (intensity_all results True)) sr6
      in foldE (\<lambda>reaction. foldE (amp_body results reaction) (ampList results reaction))
           (reactionList results) (M\<lparr>standard_results := sr7\<rparr>))"

section \<open>\<open>extract_fit_results\<close>\<close>

text \<open>
  What the loop over the files does to the outside: the bytes it appends to the csv
  stream, and the calls it makes on the handle while writing. \<open>show_double\<close>, a
  parameter of the functions below, is the stream's formatting of a \<open>double\<close>.
\<close>

datatype query =
    Q_parNameList
  | Q_parValue string
  | Q_parError string
  | Q_intensity "string list" bool
  | Q_phaseDiff string string

record sink =
  csv :: string
  queries :: "query list"

definition put :: "string \<Rightarrow> sink \<Rightarrow> sink" where
  "put txt out = out\<lparr>csv := csv out @ txt\<rparr>"

definition ask :: "query \<Rightarrow> sink \<Rightarrow> sink" where
  "ask q out = out\<lparr>queries := queries out @ [q]\<rparr>"

definition coherent_sum_types :: "string list" where
  "coherent_sum_types = [''eJPmL'', ''JPmL'', ''eJPL'', ''JPL'', ''eJP'', ''JP'', ''e'']"

text \<open>The maps as they are before the loop over the files.\<close>

definition init_maps :: "'r maps" where
  "init_maps = \<lparr>standard_results = [], production_coefficients = [],
     coherent_sums = fold (\<lambda>key cs. map_insert key [] cs) coherent_sum_types [],
     phase_diffs = []\<rparr>"

text \<open>The four \<open>clear\<close> statements at the head of the loop body.\<close>

definition clear_maps :: "'r maps \<Rightarrow> 'r maps" where
  "clear_maps M = M\<lparr>standard_results := [], production_coefficients := [],
     coherent_sums := map (\<lambda>(key, val). (key, [])) (coherent_sums M),
     phase_diffs := []\<rparr>"

text \<open>
  The header row, sections 1 to 5 and the newline. The first loop binds its variables as
  \<open>[kev, val]\<close> and writes \<open>key\<close>; the key of the entry is what is written.
\<close>

definition header_standard :: "(string \<times> 'r) list \<Rightarrow> sink \<Rightarrow> sink" where
  "header_standard sr = fold (\<lambda>(key, val) out. put '','' (put key out)) sr"

definition header_pars :: "'r FitResults \<Rightarrow> sink \<Rightarrow> sink" where
  "header_pars results out =
     fold (\<lambda>par_name out.
             if str_find par_name ''::'' \<noteq> None then out
             else put ''_err,'' (put par_name (put '','' (put par_name out))))
       (parNameList results) (ask Q_parNameList out)"

definition header_production :: "(string \<times> ('r \<times> 'r)) list \<Rightarrow> sink \<Rightarrow> sink" where
  "header_production pc =
     fold (\<lambda>(key, complex_val) out.
             put '','' (put ''_im'' (put key (put '','' (put ''_re'' (put key out)))))) pc"

definition header_sums :: "(string \<times> (string \<times> string list) list) list \<Rightarrow> sink \<Rightarrow> sink" where
  "header_sums cs =
     fold (\<lambda>(sum_name, sum_map).
             fold (\<lambda>(sum, amp_vector) out. put ''_err,'' (put sum (put '','' (put sum out))))
               (map_at sum_name cs)) cs"

definition header_pds :: "(string \<times> (string \<times> string)) list \<Rightarrow> sink \<Rightarrow> sink" where
  "header_pds pd =
     fold (\<lambda>(pd_name, pd_pair) out.
             put ''_err,'' (put pd_name (put '','' (put pd_name out)))) pd"

definition write_header :: "'r FitResults \<Rightarrow> 'r maps \<Rightarrow> sink \<Rightarrow> sink" where
  "write_header results M out =
     put [CHR 0x0A]
       (header_pds (phase_diffs M)
         (header_sums (coherent_sums M)
           (header_production (production_coefficients M)
             (header_pars results
               (header_standard (standard_results M) out)))))"

text \<open>The values, written "in the same order of map loops".\<close>

definition values_standard :: "('r \<Rightarrow> string) \<Rightarrow> (string \<times> 'r) list \<Rightarrow> sink \<Rightarrow> sink" where
  "values_standard show_double sr =
     fold (\<lambda>(key, val) out. put '','' (put (show_double val) out)) sr"

definition values_pars :: "('r \<Rightarrow> string) \<Rightarrow> 'r FitResults \<Rightarrow> sink \<Rightarrow> sink" where
  "values_pars show_double results out =
     fold (\<lambda>par_name out.
             if str_find par_name ''::'' \<noteq> None then out
             else put '','' (put (show_double (parError results par_name))
                    (ask (Q_parError par_name)
                    (put '','' (put (show_double (parValue results par_name))
                    (ask (Q_parValue par_name) out))))))
       (parNameList results) (ask Q_parNameList out)"

definition values_production ::
  "('r \<Rightarrow> string) \<Rightarrow> (string \<times> ('r \<times> 'r)) list \<Rightarrow> sink \<Rightarrow> sink" where
  "values_production show_double pc =
     fold (\<lambda>(key, complex_val) out.
             put '','' (put (show_double (snd complex_val))
               (put '','' (put (show_double (fst complex_val)) out)))) pc"

definition values_sums ::
  "('r \<Rightarrow> string) \<Rightarrow> 'r FitResults \<Rightarrow> bool \<Rightarrow> (string \<times> (string \<times> string list) list) list
     \<Rightarrow> sink \<Rightarrow> sink" where
  "values_sums show_double results is_acceptance_corrected cs =
     fold (\<lambda>(sum_name, sum_map).
             fold (\<lambda>(sum, amp_vector) out.
                     put '','' (put (show_double
                         (snd (intensity results amp_vector is_acceptance_corrected)))
                       (ask (Q_intensity amp_vector is_acceptance_corrected)
                       (put '','' (put (show_double
                         (fst (intensity results amp_vector is_acceptance_corrected)))
                       (ask (Q_intensity amp_vector is_acceptance_corrected) out))))))
               (map_at sum_name cs)) cs"

definition values_pds ::
  "('r \<Rightarrow> string) \<Rightarrow> 'r FitResults \<Rightarrow> (string \<times> (string \<times> string)) list \<Rightarrow> sink \<Rightarrow> sink" where
  "values_pds show_double results pd =
     fold (\<lambda>(pd_name, pd_pair) out.
             put '','' (put (show_double (snd (phaseDiff results (fst pd_pair) (snd pd_pair))))
               (ask (Q_phaseDiff (fst pd_pair) (snd pd_pair))
               (put '','' (put (show_double (fst (phaseDiff results (fst pd_pair) (snd pd_pair))))
               (ask (Q_phaseDiff (fst pd_pair) (snd pd_pair)) out)))))) pd"

definition write_values ::
  "('r \<Rightarrow> string) \<Rightarrow> 'r FitResults \<Rightarrow> bool \<Rightarrow> 'r maps \<Rightarrow> sink \<Rightarrow> sink" where
  "write_values show_double results is_acceptance_corrected M out =
     values_pds show_double results (phase_diffs M)
       (values_sums show_double results is_acceptance_corrected (coherent_sums M)
         (values_production show_double (production_coefficients M)
           (values_pars show_double results
             (values_standard show_double (standard_results M) out))))"

text \<open>
  The body of the loop over the files. \<open>open_file\<close> is the constructor
  \<open>FitResults results(file)\<close>. The csv stream is taken to be open, so that
  \<open>csv_file.tellp()\<close> is the number of bytes written so far. The messages on \<open>cout\<close>
  are left out. The values of a file are not followed by a newline: the source writes
  none.
\<close>

definition file_body ::
  "(string \<Rightarrow> 'r FitResults) \<Rightarrow> ('r \<Rightarrow> string) \<Rightarrow> bool \<Rightarrow> string \<Rightarrow> 'r maps \<times> sink
     \<Rightarrow> error + ('r maps \<times> sink)" where
  "file_body open_file show_double is_acceptance_corrected file st =
     (let results = open_file file
      in if \<not> valid results then Inr st
         else (case fill_maps results (clear_maps (fst st)) of
                 Inl err \<Rightarrow> Inl err
               | Inr M \<Rightarrow>
                   let out1 = (if length (csv (snd st)) = 0
                               then write_header results M (snd st) else snd st)
                   in Inr (M, write_values show_double results is_acceptance_corrected M out1)))"

definition file_loop ::
  "(string \<Rightarrow> 'r FitResults) \<Rightarrow> ('r \<Rightarrow> string) \<Rightarrow> bool \<Rightarrow> string list \<Rightarrow> 'r maps \<times> sink
     \<Rightarrow> error + ('r maps \<times> sink)" where
  "file_loop open_file show_double is_acceptance_corrected file_vector st =
     foldE (file_body open_file show_double is_acceptance_corrected) file_vector st"

definition extract_fit_results ::
  "(string \<Rightarrow> 'r FitResults) \<Rightarrow> ('r \<Rightarrow> string) \<Rightarrow> string \<Rightarrow> bool \<Rightarrow> error + sink" where
  "extract_fit_results open_file show_double files is_acceptance_corrected =
     (case file_loop open_file show_double is_acceptance_corrected (words_from [] files)
             (init_maps, \<lparr>csv = [], queries = []\<rparr>) of
        Inl err \<Rightarrow> Inl err
      | Inr st \<Rightarrow> Inr (snd st))"

section \<open>Notions used in the statements\<close>

text \<open>
  The trailing segment as a total function: it is the value of \<open>trailing_segment\<close>
  wherever that returns. An amplitude is well-formed when \<open>parse_amplitude\<close> returns on
  it, that is, when its trailing segment exists and has 4 characters or more.
  \<open>all_amps\<close> lists the amplitudes of all reactions in the order of the loops.
\<close>

definition seg :: "string \<Rightarrow> string" where
  "seg amplitude = drop (segment_start amplitude) amplitude"

definition well_formed :: "string \<Rightarrow> bool" where
  "well_formed amplitude =
     (case trailing_segment amplitude of Inl err \<Rightarrow> False | Inr s \<Rightarrow> 4 \<le> length s)"

definition all_amps :: "'r FitResults \<Rightarrow> string list" where
  "all_amps results = concat (map (ampList results) (reactionList results))"

text \<open>
  The group of a tag and a key, the key that an \<open>eJPmL\<close> label has under a tag (the
  fields are cut from the label as \<open>parse_amplitude\<close> cuts them), and the groups that an
  amplitude is appended to.
\<close>

definition group_of ::
  "(string \<times> (string \<times> string list) list) list \<Rightarrow> string \<Rightarrow> string \<Rightarrow> string list" where
  "group_of cs tag key = map_at key (map_at tag cs)"

definition sum_key :: "string \<Rightarrow> string \<Rightarrow> string" where
  "sum_key tag label =
     (let e = take 1 label; JP = take 2 (drop 1 label); m = take 1 (drop 3 label);
          L = drop 4 label
      in if tag = ''eJPmL'' then label
         else if tag = ''JPmL'' then JP @ m @ L
         else if tag = ''eJPL'' then e @ JP @ L
         else if tag = ''JPL'' then JP @ L
         else if tag = ''eJP'' then e @ JP
         else if tag = ''JP'' then JP
         else if tag = ''e'' then e
         else [])"

definition routed :: "string \<Rightarrow> string \<Rightarrow> string \<Rightarrow> bool" where
  "routed amplitude tag key =
     (if is_bkgd amplitude then tag = ''eJPmL'' \<and> key = ''Bkgd''
      else tag \<in> set coherent_sum_types \<and> key = sum_key tag (seg amplitude))"

text \<open>
  The two maps as folds: what one amplitude does to the coherent sums and what one
  ordered pair of amplitudes does to the phase differences. \<open>encounters\<close> lists the
  ordered pairs of distinct amplitudes of one reaction, neither of them background, in
  the order in which the loops come to them; \<open>seg_encounters\<close> lists the trailing
  segments of those among them that have equal reflectivity.
\<close>

definition sums_step ::
  "string \<Rightarrow> (string \<times> (string \<times> string list) list) list
     \<Rightarrow> (string \<times> (string \<times> string list) list) list" where
  "sums_step amplitude cs =
     (if is_bkgd amplitude then push_sum ''eJPmL'' ''Bkgd'' amplitude cs
      else fold (\<lambda>tag. push_sum tag (sum_key tag (seg amplitude)) amplitude)
             coherent_sum_types cs)"

definition register ::
  "string \<times> string \<Rightarrow> (string \<times> (string \<times> string)) list \<Rightarrow> (string \<times> (string \<times> string)) list" where
  "register p pd =
     (if map_find (seg (snd p) @ ''_'' @ seg (fst p)) pd \<noteq> None then pd
      else if char_at0 (seg (fst p)) \<noteq> char_at0 (seg (snd p)) then pd
      else map_insert (seg (fst p) @ ''_'' @ seg (snd p)) p pd)"

definition partners :: "string list \<Rightarrow> string \<Rightarrow> (string \<times> string) list" where
  "partners amps amplitude =
     (if is_bkgd amplitude then []
      else map (Pair amplitude) (filter (\<lambda>b. b \<noteq> amplitude \<and> \<not> is_bkgd b) amps))"

definition encounters :: "'r FitResults \<Rightarrow> (string \<times> string) list" where
  "encounters results =
     concat (map (\<lambda>reaction. concat (map (partners (ampList results reaction))
                                        (ampList results reaction)))
               (reactionList results))"

definition seg_encounters :: "'r FitResults \<Rightarrow> (string \<times> string) list" where
  "seg_encounters results =
     map (\<lambda>p. (seg (fst p), seg (snd p)))
       (filter (\<lambda>p. char_at0 (seg (fst p)) = char_at0 (seg (snd p))) (encounters results))"

text \<open>
  "Exactly one of the keys \<open>eJPmL_A_eJPmL_B\<close> and \<open>eJPmL_B_eJPmL_A\<close> is present, never
  both", as the specification words it.
\<close>

definition exactly_one_key :: "(string \<times> (string \<times> string)) list \<Rightarrow> string \<Rightarrow> string \<Rightarrow> bool" where
  "exactly_one_key pd a b =
     ((map_find (seg a @ ''_'' @ seg b) pd \<noteq> None) \<noteq> (map_find (seg b @ ''_'' @ seg a) pd \<noteq> None))"

text \<open>No trailing segment of an amplitude that is not background has an underscore.\<close>

definition underscore_free :: "'r FitResults \<Rightarrow> bool" where
  "underscore_free results =
     (\<forall>a\<in>set (all_amps results). is_bkgd a \<or> CHR ''_'' \<notin> set (seg a))"

text \<open>
  The coherent-sum groups and their keys in the order in which \<open>header_sums\<close> and
  \<open>values_sums\<close> visit them, and the seven tags in ascending order.
\<close>

definition sum_groups ::
  "(string \<times> (string \<times> string list) list) list \<Rightarrow> (string \<times> string list) list" where
  "sum_groups cs = concat (map (\<lambda>(sum_name, sum_map). map_at sum_name cs) cs)"

definition sum_columns :: "(string \<times> (string \<times> string list) list) list \<Rightarrow> string list" where
  "sum_columns cs = map fst (sum_groups cs)"

definition sorted_sum_types :: "string list" where
  "sorted_sum_types = [''JP'', ''JPL'', ''JPmL'', ''e'', ''eJP'', ''eJPL'', ''eJPmL'']"

text \<open>
  The coherent sums are well-formed ordered maps: tags and keys ascend strictly, and no
  group is empty.
\<close>

definition sums_ok :: "(string \<times> (string \<times> string list) list) list \<Rightarrow> bool" where
  "sums_ok cs \<longleftrightarrow> sorted_wrt (<) (map fst cs)
     \<and> (\<forall>p\<in>set cs. sorted_wrt (<) (map fst (snd p)) \<and> (\<forall>g\<in>set (snd p). snd g \<noteq> []))"

text \<open>
  The column order that the specification words: the tags as listed, and under each tag
  the keys in the order in which the amplitudes first produce them.
\<close>

fun first_seen :: "'a list \<Rightarrow> 'a list" where
  "first_seen [] = []"
| "first_seen (x # xs) = x # filter (\<lambda>y. y \<noteq> x) (first_seen xs)"

definition keys_in_order :: "string \<Rightarrow> string list \<Rightarrow> string list" where
  "keys_in_order tag amps =
     concat (map (\<lambda>a. if is_bkgd a then (if tag = ''eJPmL'' then [''Bkgd''] else [])
                       else [sum_key tag (seg a)]) amps)"

definition first_seen_columns :: "'r FitResults \<Rightarrow> string list" where
  "first_seen_columns results =
     concat (map (\<lambda>tag. first_seen (keys_in_order tag (all_amps results))) coherent_sum_types)"

text \<open>The queries of one kind in a list of queries.\<close>

definition is_intensity_query :: "query \<Rightarrow> bool" where
  "is_intensity_query q = (case q of Q_intensity amps acc \<Rightarrow> True | _ \<Rightarrow> False)"

definition is_phaseDiff_query :: "query \<Rightarrow> bool" where
  "is_phaseDiff_query q = (case q of Q_phaseDiff a b \<Rightarrow> True | _ \<Rightarrow> False)"

text \<open>
  The maps of a valid file, the text of its header and the text of its row of values.
\<close>

definition empty_sink :: sink where
  "empty_sink = \<lparr>csv = [], queries = []\<rparr>"

definition filled :: "'r FitResults \<Rightarrow> 'r maps" where
  "filled results =
     (case fill_maps results (clear_maps init_maps) of
        Inl err \<Rightarrow> clear_maps init_maps | Inr M \<Rightarrow> M)"

definition header_text :: "'r FitResults \<Rightarrow> string" where
  "header_text results = csv (write_header results (filled results) empty_sink)"

definition row_text :: "('r \<Rightarrow> string) \<Rightarrow> bool \<Rightarrow> 'r FitResults \<Rightarrow> string" where
  "row_text show_double is_acceptance_corrected results =
     csv (write_values show_double results is_acceptance_corrected (filled results) empty_sink)"

text \<open>Handles on which the statements are exercised.\<close>

definition example_show :: "nat \<Rightarrow> string" where
  "example_show n = (if n < 10 then [char_of (48 + n)] else ''*'')"

definition example_results :: "nat FitResults" where
  "example_results =
     \<lparr>valid = True, eMatrixStatus = 3, lastMinuitCommandStatus = 0, likelihood = 100,
      intensity_all = (\<lambda>acc. if acc then (20, 2) else (10, 1)),
      intensity = (\<lambda>amps acc. (length amps, 0)),
      phaseDiff = (\<lambda>a b. (0, 0)),
      reactionList = [''R1''],
      ampList = (\<lambda>reaction. if reaction = ''R1''
                   then [''R1::S::p1p0S'', ''R1::S::m1p0S'', ''R1::S::p1ppD'', ''R1::Bkgd::iso'']
                   else []),
      parNameList = [''dalitz'', ''R1::S::p1p0S_re''],
      parValue = (\<lambda>par. 5), parError = (\<lambda>par. 1),
      scaledProductionParameter = (\<lambda>amp. (1, 0))\<rparr>"

definition example_underscores :: "nat FitResults" where
  "example_underscores =
     example_results\<lparr>ampList := (\<lambda>reaction. if reaction = ''R1''
       then [''R1::S::pxyz'', ''R1::S::pabc_pdef'', ''R1::S::pabc'', ''R1::S::pdef_pxyz'']
       else [])\<rparr>"

definition example_twins :: "nat FitResults" where
  "example_twins =
     example_results\<lparr>ampList := (\<lambda>reaction. if reaction = ''R1''
       then [''R1::ImagPosSign::p1p0S'', ''R1::RealNegSign::p1p0S''] else [])\<rparr>"

definition example_open :: "string \<Rightarrow> nat FitResults" where
  "example_open file =
     (if file = ''bad.fit'' then example_results\<lparr>valid := False\<rparr> else example_results)"

definition example_marker_in_reaction :: "nat FitResults" where
  "example_marker_in_reaction =
     example_results\<lparr>reactionList := [''iso1''],
       ampList := (\<lambda>reaction. if reaction = ''iso1''
                     then [''iso1::S::p1p0S'', ''iso1::S::p1ppD''] else [])\<rparr>"

section \<open>Strings\<close>

lemma find_rev_upt_Some:
  "List.find P (rev [0..<n]) = Some i \<longleftrightarrow> i < n \<and> P i \<and> (\<forall>j. i < j \<and> j < n \<longrightarrow> \<not> P j)"
proof (induction n)
  case 0
  then show ?case by simp
next
  case (Suc n)
  show ?case
  proof (cases "P n")
    case True
    then show ?thesis
      by (auto simp: less_Suc_eq)
  next
    case False
    then show ?thesis
      using Suc by (auto simp: less_Suc_eq)
  qed
qed

lemma match_at_split: "match_at s pat i \<Longrightarrow> s = take i s @ pat @ drop (i + length pat) s"
proof -
  assume "match_at s pat i"
  then have "take (length pat) (drop i s) = pat"
    by (simp add: match_at_def)
  then have "drop i s = pat @ drop (length pat) (drop i s)"
    by (metis append_take_drop_id)
  then have "s = take i s @ pat @ drop (length pat) (drop i s)"
    by (metis append_take_drop_id)
  then show ?thesis
    by (simp add: add.commute)
qed

lemma match_at_append: "match_at (u @ pat @ v) pat (length u)"
  by (simp add: match_at_def)

lemma str_find_iff: "str_find s pat \<noteq> None \<longleftrightarrow> (\<exists>u v. s = u @ pat @ v)"
proof
  assume "str_find s pat \<noteq> None"
  then obtain i where "match_at s pat i"
    by (auto simp: str_find_def find_None_iff)
  from match_at_split [OF this] show "\<exists>u v. s = u @ pat @ v"
    by blast
next
  assume "\<exists>u v. s = u @ pat @ v"
  then obtain u v where s: "s = u @ pat @ v"
    by blast
  have "length u \<in> set [0..<Suc (length s)]"
    by (simp add: s)
  moreover have "match_at s pat (length u)"
    unfolding s by (rule match_at_append)
  ultimately show "str_find s pat \<noteq> None"
    unfolding str_find_def find_None_iff by blast
qed

lemma str_rfind_last:
  assumes "str_find (CHR '':'' # sfx) ''::'' = None"
  shows "str_rfind (pre @ ''::'' @ sfx) ''::'' = Some (length pre)"
proof -
  let ?s = "pre @ ''::'' @ sfx"
  have no: "\<not> match_at (CHR '':'' # sfx) ''::'' k" for k
  proof
    assume "match_at (CHR '':'' # sfx) ''::'' k"
    from match_at_split [OF this] have "\<exists>u v. CHR '':'' # sfx = u @ ''::'' @ v"
      by blast
    then have "str_find (CHR '':'' # sfx) ''::'' \<noteq> None"
      by (simp only: str_find_iff)
    with assms show False by simp
  qed
  have later: "\<not> match_at ?s ''::'' j" if "length pre < j" for j
  proof -
    from that obtain k where j: "j = Suc (length pre) + k"
      using less_iff_Suc_add by auto
    have "drop j ?s = drop k (CHR '':'' # sfx)"
      by (simp add: j)
    then have "match_at ?s ''::'' j = match_at (CHR '':'' # sfx) ''::'' k"
      by (simp add: match_at_def)
    with no show ?thesis by simp
  qed
  have "match_at ?s ''::'' (length pre)"
    using match_at_append [of pre "''::''" sfx] by simp
  with later show ?thesis
    unfolding str_rfind_def find_rev_upt_Some by auto
qed

lemma trailing_segment_form:
  assumes "str_find (CHR '':'' # sfx) ''::'' = None"
  shows "trailing_segment (pre @ ''::'' @ sfx) = Inr sfx"
  using str_rfind_last [OF assms, of pre]
  by (simp add: trailing_segment_def segment_start_def substr_to_end_def)

section \<open>The name parser\<close>

lemma parse_amplitude_ok:
  assumes "trailing_segment amplitude = Inr s" and "4 \<le> length s"
  shows "parse_amplitude amplitude = Inr (take 1 s, take 2 (drop 1 s), take 1 (drop 3 s), drop 4 s)"
  using assms by (auto simp: parse_amplitude_def substr_def substr_to_end_def)

lemma parse_amplitude_short:
  assumes "trailing_segment amplitude = Inr s" and "length s < 4"
  shows "parse_amplitude amplitude = Inl OutOfRange"
  using assms by (simp add: parse_amplitude_def substr_def substr_to_end_def)

lemma parse_amplitude_no_segment:
  assumes "trailing_segment amplitude = Inl err"
  shows "parse_amplitude amplitude = Inl err"
  using assms by (simp add: parse_amplitude_def)

lemma fields_concat:
  "take 1 s @ take 2 (drop 1 s) @ take 1 (drop 3 s) @ drop 4 s = (s::string)"
proof -
  have a: "take 3 s = take 1 s @ take 2 (drop 1 s)"
    using take_add [of 1 2 s] by (simp add: numeral_3_eq_3)
  have b: "take 4 s = take 3 s @ take 1 (drop 3 s)"
    using take_add [of 3 1 s] by simp
  have "s = take 4 s @ drop 4 s"
    by simp
  then show ?thesis
    unfolding b a by simp
qed

text \<open>
  Claim C4. For an identifier \<open>R::S::eJPmL\<close> whose last separator is the one in front of
  \<open>eJPmL\<close> (the segment neither starts with a colon nor contains the separator) and
  whose segment has at least 4 characters, \<open>parse_amplitude\<close> returns four fields of
  widths 1, 2, 1 and the rest, and the four fields concatenated in that order are the
  segment again.
\<close>

theorem parse_amplitude_roundtrip:
  assumes "amplitude = R @ ''::'' @ S @ ''::'' @ eJPmL"
    and "str_find (CHR '':'' # eJPmL) ''::'' = None"
    and "4 \<le> length eJPmL"
  shows "\<exists>e JP m L. parse_amplitude amplitude = Inr (e, JP, m, L)
           \<and> length e = 1 \<and> length JP = 2 \<and> length m = 1 \<and> length L = length eJPmL - 4
           \<and> e @ JP @ m @ L = eJPmL"
proof -
  have "trailing_segment amplitude = Inr eJPmL"
    using trailing_segment_form [OF assms(2), of "R @ ''::'' @ S"] assms(1) by simp
  from parse_amplitude_ok [OF this assms(3)] fields_concat [of eJPmL] assms(3)
  show ?thesis by simp
qed

theorem parse_amplitude_roundtrip_witness:
  "\<exists>e JP m L. parse_amplitude ''R1::ImagPosSign::p1p0S'' = Inr (e, JP, m, L)
           \<and> length e = 1 \<and> length JP = 2 \<and> length m = 1 \<and> length L = length ''p1p0S'' - 4
           \<and> e @ JP @ m @ L = ''p1p0S''"
proof -
  have a: "''R1::ImagPosSign::p1p0S'' = ''R1'' @ ''::'' @ ''ImagPosSign'' @ ''::'' @ ''p1p0S''"
    by simp
  have b: "str_find (CHR '':'' # ''p1p0S'') ''::'' = None"
    by code_simp
  have c: "4 \<le> length ''p1p0S''"
    by simp
  show ?thesis
    by (rule parse_amplitude_roundtrip [OF a b c])
qed

text \<open>
  Claim C9. \<open>parse_amplitude\<close> is partial: when the trailing segment has fewer than 4
  characters the call raises \<open>std::out_of_range\<close> and returns no tuple (position 4 lies
  beyond the end of the segment; for still shorter segments an earlier \<open>substr\<close> already
  throws the same exception), and for a segment of exactly 4 characters it returns with
  the empty orbital-L field.
\<close>

theorem parse_amplitude_partial:
  assumes "trailing_segment amplitude = Inr s"
  shows "(length s < 4 \<longrightarrow> parse_amplitude amplitude = Inl OutOfRange)
       \<and> (length s = 4 \<longrightarrow> (\<exists>e JP m. parse_amplitude amplitude = Inr (e, JP, m, [])))"
  using parse_amplitude_short [OF assms] parse_amplitude_ok [OF assms] by simp

theorem parse_amplitude_partial_witness:
  "trailing_segment ''R1::S::p1p'' = Inr ''p1p'' \<and> parse_amplitude ''R1::S::p1p'' = Inl OutOfRange
   \<and> trailing_segment ''R1::S::p1p0'' = Inr ''p1p0''
   \<and> (\<exists>e JP m. parse_amplitude ''R1::S::p1p0'' = Inr (e, JP, m, []))"
proof -
  have a: "trailing_segment ''R1::S::p1p'' = Inr ''p1p''"
    by code_simp
  have b: "trailing_segment ''R1::S::p1p0'' = Inr ''p1p0''"
    by code_simp
  from parse_amplitude_partial [OF a] parse_amplitude_partial [OF b] a b
  show ?thesis by simp
qed

section \<open>Maps and loops\<close>

subsection \<open>The ordered map\<close>

lemma map_of_map_insert: "map_of (map_insert k v m) = (map_of m)(k \<mapsto> v)"
  by (induction m) (auto simp: fun_eq_iff)

lemma map_at_map_insert: "map_at k' (map_insert k v m) = (if k' = k then v else map_at k' m)"
  by (simp add: map_at_def map_of_map_insert)

lemma map_find_map_insert:
  "map_find k' (map_insert k v m) = (if k' = k then Some v else map_find k' m)"
  by (simp add: map_find_def map_of_map_insert)

lemma set_map_insert: "set (map_insert k v m) \<subseteq> insert (k, v) (set m)"
  by (induction m) (auto split: if_splits)

lemma keys_map_insert: "fst ` set (map_insert k v m) = insert k (fst ` set m)"
proof (induction m)
  case Nil
  then show ?case by simp
next
  case (Cons p m)
  then show ?case
    by (cases p) (simp add: insert_commute)
qed

lemma map_find_keys: "map_find k m \<noteq> None \<longleftrightarrow> k \<in> fst ` set m"
  by (simp add: map_find_def map_of_eq_None_iff)

lemma sorted_map_insert:
  "sorted_wrt (<) (map fst m) \<Longrightarrow> sorted_wrt (<) (map fst (map_insert k v m))"
proof (induction m)
  case Nil
  then show ?case by simp
next
  case (Cons p m)
  obtain k' v' where p: "p = (k', v')" by (cases p)
  have "\<forall>x\<in>fst ` set (map_insert k v m). k' < x" if "k' < k"
    using Cons.prems that by (auto simp: keys_map_insert p)
  with Cons show ?case
    by (auto simp: p)
qed

lemma map_insert_same_keys:
  "sorted_wrt (<) (map fst m) \<Longrightarrow> k \<in> fst ` set m \<Longrightarrow> map fst (map_insert k v m) = map fst m"
proof (induction m)
  case Nil
  then show ?case by simp
next
  case (Cons p m)
  obtain k' v' where p: "p = (k', v')" by (cases p)
  show ?case
  proof (cases "k = k'")
    case True
    then show ?thesis by (simp add: p)
  next
    case False
    with Cons.prems have in_m: "k \<in> fst ` set m" and "k' < k"
      by (auto simp: p)
    then have "\<not> k < k'"
      by simp
    with Cons in_m False show ?thesis
      by (simp add: p)
  qed
qed

lemma map_of_sorted_entry:
  "sorted_wrt (<) (map fst m) \<Longrightarrow> (k::'k::linorder, v) \<in> set m \<Longrightarrow> map_of m k = Some v"
proof -
  assume "sorted_wrt (<) (map fst m)" and "(k, v) \<in> set m"
  then have "distinct (map fst m)"
    using strict_sorted_iff [of "map fst m"] by simp
  with \<open>(k, v) \<in> set m\<close> show ?thesis
    by (simp add: map_of_is_SomeI)
qed

subsection \<open>Loops that may throw\<close>

lemma foldE_proj:
  assumes "\<And>x s s'. x \<in> set xs \<Longrightarrow> f x s = Inr s' \<Longrightarrow> p s' = g x (p s)"
    and "foldE f xs s = Inr s'"
  shows "p s' = fold g xs (p s)"
  using assms
proof (induction xs arbitrary: s)
  case Nil
  then show ?case by simp
next
  case (Cons x xs)
  from Cons.prems(2) obtain s1 where s1: "f x s = Inr s1" and rest: "foldE f xs s1 = Inr s'"
    by (auto split: sum.splits)
  have "p s' = fold g xs (p s1)"
    by (rule Cons.IH [OF _ rest]) (simp add: Cons.prems(1))
  moreover have "p s1 = g x (p s)"
    by (rule Cons.prems(1) [OF _ s1]) simp
  ultimately show ?case by simp
qed

lemma foldE_total:
  assumes "\<And>x s. x \<in> set xs \<Longrightarrow> \<exists>s'. f x s = Inr s'"
  shows "\<exists>s'. foldE f xs s = Inr s'"
  using assms
proof (induction xs arbitrary: s)
  case Nil
  then show ?case by simp
next
  case (Cons x xs)
  obtain s1 where "f x s = Inr s1"
    using Cons.prems [of x s] by auto
  moreover obtain s' where "foldE f xs s1 = Inr s'"
    using Cons.IH [of s1] Cons.prems by auto
  ultimately show ?case by simp
qed

lemma foldE_fails:
  assumes "x \<in> set xs" and "\<And>s. f x s = Inl err" and "\<And>y s e. f y s = Inl e \<Longrightarrow> e = err"
  shows "foldE f xs s = Inl err"
  using assms(1)
proof (induction xs arbitrary: s)
  case Nil
  then show ?case by simp
next
  case (Cons y xs)
  show ?case
  proof (cases "f y s")
    case (Inl e)
    then show ?thesis using assms(3) by simp
  next
    case (Inr s1)
    show ?thesis
    proof (cases "y = x")
      case True
      with Inr assms(2) show ?thesis by simp
    next
      case False
      with Cons Inr show ?thesis by simp
    qed
  qed
qed

section \<open>What \<open>fill_maps\<close> computes\<close>

subsection \<open>The trailing segment\<close>

lemma trailing_segment_seg: "trailing_segment a = Inr s \<Longrightarrow> s = seg a"
  by (auto simp: trailing_segment_def substr_to_end_def seg_def split: if_splits)

lemma well_formed_iff: "well_formed a \<longleftrightarrow> trailing_segment a = Inr (seg a) \<and> 4 \<le> length (seg a)"
  by (auto simp: well_formed_def dest: trailing_segment_seg split: sum.splits)

lemma parse_amplitude_well_formed:
  "well_formed a \<Longrightarrow>
     parse_amplitude a = Inr (take 1 (seg a), take 2 (drop 1 (seg a)), take 1 (drop 3 (seg a)),
                              drop 4 (seg a))"
  by (simp add: well_formed_iff parse_amplitude_ok)

lemma parse_amplitude_ill_formed: "\<not> well_formed a \<Longrightarrow> parse_amplitude a = Inl OutOfRange"
proof (cases "trailing_segment a")
  case (Inl err)
  then show ?thesis
    by (cases err) (simp add: parse_amplitude_no_segment)
next
  case (Inr s)
  assume "\<not> well_formed a"
  with Inr have "length s < 4"
    by (simp add: well_formed_def)
  with Inr show ?thesis
    by (rule parse_amplitude_short)
qed

lemma eJPmL_of_fields:
  assumes "parse_amplitude a = Inr (e, JP, m, L)"
  shows "eJPmL_of a = Inr (e @ JP @ m @ L)"
proof -
  have wf: "well_formed a"
    using assms parse_amplitude_ill_formed [of a] by auto
  from parse_amplitude_well_formed [OF wf] assms fields_concat [of "seg a"] wf show ?thesis
    by (simp add: eJPmL_of_def well_formed_iff)
qed

lemma seg_suffix: "\<exists>u. a = u @ seg a"
  unfolding seg_def by (metis append_take_drop_id)

lemma seg_not_Bkgd: "\<not> is_bkgd a \<Longrightarrow> seg a \<noteq> ''Bkgd''"
proof
  assume nb: "\<not> is_bkgd a" and eq: "seg a = ''Bkgd''"
  obtain u where "a = u @ seg a"
    using seg_suffix by blast
  then have "a = u @ ''Bkgd'' @ []"
    by (simp add: eq)
  then have "str_find a ''Bkgd'' \<noteq> None"
    unfolding str_find_iff by blast
  with nb show False
    by (simp add: is_bkgd_def)
qed

subsection \<open>The loops of \<open>fill_maps\<close> as folds\<close>

lemma fold_skip: "fold (\<lambda>x s. if c x then s else h x s) xs s = fold h (filter (\<lambda>x. \<not> c x) xs) s"
  by (induction xs arbitrary: s) auto

lemma fold_concat_map: "fold f (concat (map h xs)) = fold (\<lambda>x. fold f (h x)) xs"
  by (induction xs) (auto simp: fun_eq_iff)

lemma pd_body_view:
  assumes "pd_body a (seg a) b pd = Inr pd'"
  shows "pd' = (if b = a \<or> is_bkgd b then pd else register (a, b) pd)"
  using assms
  by (auto simp: pd_body_def register_def dest: trailing_segment_seg split: if_splits sum.splits)

lemma pd_loop_view:
  assumes "foldE (pd_body a (seg a)) bs pd = Inr pd'" and "\<not> is_bkgd a"
  shows "pd' = fold register (partners bs a) pd"
proof -
  let ?g = "\<lambda>b pd. if b = a \<or> is_bkgd b then pd else register (a, b) pd"
  have step: "\<And>b s s'. b \<in> set bs \<Longrightarrow> pd_body a (seg a) b s = Inr s' \<Longrightarrow> s' = ?g b s"
    by (rule pd_body_view)
  have "pd' = fold ?g bs pd"
    using foldE_proj [where p = "\<lambda>x. x" and g = ?g, OF step assms(1)] by simp
  also have "\<dots> = fold (\<lambda>b. register (a, b)) (filter (\<lambda>b. \<not> (b = a \<or> is_bkgd b)) bs) pd"
    by (rule fold_skip)
  also have "\<dots> = fold register (partners bs a) pd"
    using assms(2) by (simp add: partners_def fold_map comp_def)
  finally show ?thesis .
qed

lemma amp_body_view:
  assumes "amp_body R r a M = Inr M'"
  shows "coherent_sums M' = sums_step a (coherent_sums M)"
    and "phase_diffs M' = fold register (partners (ampList R r) a) (phase_diffs M)"
proof -
  show "coherent_sums M' = sums_step a (coherent_sums M)"
  proof (cases "is_bkgd a")
    case True
    with assms show ?thesis
      by (auto simp: amp_body_def sums_step_def)
  next
    case False
    have wf: "well_formed a"
    proof (rule ccontr)
      assume "\<not> well_formed a"
      from parse_amplitude_ill_formed [OF this] assms False show False
        by (simp add: amp_body_def)
    qed
    then have ts: "trailing_segment a = Inr (seg a)"
      by (simp add: well_formed_iff)
    from assms False show ?thesis
      by (auto simp: amp_body_def sums_step_def parse_amplitude_well_formed [OF wf] ts eJPmL_of_def Let_def
            coherent_sum_types_def sum_key_def split: sum.splits)
  qed
  show "phase_diffs M' = fold register (partners (ampList R r) a) (phase_diffs M)"
  proof (cases "is_bkgd a")
    case True
    with assms show ?thesis
      by (auto simp: amp_body_def partners_def)
  next
    case False
    have wf: "well_formed a"
    proof (rule ccontr)
      assume "\<not> well_formed a"
      from parse_amplitude_ill_formed [OF this] assms False show False
        by (simp add: amp_body_def)
    qed
    then have ts: "trailing_segment a = Inr (seg a)"
      by (simp add: well_formed_iff)
    from assms False obtain pd where
      "foldE (pd_body a (seg a)) (ampList R r) (phase_diffs M) = Inr pd" and "phase_diffs M' = pd"
      by (auto simp: amp_body_def parse_amplitude_well_formed [OF wf] ts eJPmL_of_def Let_def split: sum.splits)
    with pd_loop_view [OF _ False] show ?thesis
      by simp
  qed
qed

lemma fill_maps_view:
  assumes "fill_maps R M = Inr M'"
  shows "coherent_sums M' = fold sums_step (all_amps R) (coherent_sums M)"
    and "phase_diffs M' = fold register (encounters R) (phase_diffs M)"
proof -
  let ?loop = "\<lambda>reaction. foldE (amp_body R reaction) (ampList R reaction)"
  from assms obtain M0 where
    loop: "foldE ?loop (reactionList R) M0 = Inr M'"
    and M0: "coherent_sums M0 = coherent_sums M" "phase_diffs M0 = phase_diffs M"
    by (auto simp: fill_maps_def Let_def)
  have inner_cs: "coherent_sums N' = fold sums_step (ampList R r) (coherent_sums N)"
    if "?loop r N = Inr N'" for r N N'
  proof (rule foldE_proj [where p = coherent_sums and g = sums_step, OF _ that])
    fix a s s'
    assume "amp_body R r a s = Inr s'"
    then show "coherent_sums s' = sums_step a (coherent_sums s)"
      by (rule amp_body_view(1))
  qed
  have "coherent_sums M' = fold (\<lambda>r. fold sums_step (ampList R r)) (reactionList R) (coherent_sums M0)"
    by (rule foldE_proj [where p = coherent_sums and g = "\<lambda>r. fold sums_step (ampList R r)",
          OF _ loop]) (rule inner_cs)
  then show "coherent_sums M' = fold sums_step (all_amps R) (coherent_sums M)"
    by (simp add: all_amps_def fold_concat_map M0)
  have inner_pd: "phase_diffs N' =
      fold (\<lambda>a. fold register (partners (ampList R r) a)) (ampList R r) (phase_diffs N)"
    if "?loop r N = Inr N'" for r N N'
  proof (rule foldE_proj [where p = phase_diffs
        and g = "\<lambda>a. fold register (partners (ampList R r) a)", OF _ that])
    fix a s s'
    assume "amp_body R r a s = Inr s'"
    then show "phase_diffs s' = fold register (partners (ampList R r) a) (phase_diffs s)"
      by (rule amp_body_view(2))
  qed
  have "phase_diffs M' =
      fold (\<lambda>r. fold (\<lambda>a. fold register (partners (ampList R r) a)) (ampList R r))
        (reactionList R) (phase_diffs M0)"
    by (rule foldE_proj [where p = phase_diffs
          and g = "\<lambda>r. fold (\<lambda>a. fold register (partners (ampList R r) a)) (ampList R r)",
          OF _ loop]) (rule inner_pd)
  then show "phase_diffs M' = fold register (encounters R) (phase_diffs M)"
    by (simp add: encounters_def fold_concat_map M0)
qed

subsection \<open>When \<open>fill_maps\<close> returns\<close>

lemma pd_body_total:
  assumes "is_bkgd b \<or> well_formed b"
  shows "\<exists>pd'. pd_body a s b pd = Inr pd'"
  using assms by (auto simp: pd_body_def well_formed_iff)

lemma amp_body_total:
  assumes "is_bkgd a \<or> well_formed a" and "\<forall>b\<in>set (ampList R r). is_bkgd b \<or> well_formed b"
  shows "\<exists>M'. amp_body R r a M = Inr M'"
proof (cases "is_bkgd a")
  case True
  then show ?thesis by (simp add: amp_body_def)
next
  case False
  with assms(1) have wf: "well_formed a" by simp
  then have ts: "trailing_segment a = Inr (seg a)"
    by (simp add: well_formed_iff)
  obtain pd where "foldE (pd_body a (seg a)) (ampList R r) (phase_diffs M) = Inr pd"
    using foldE_total [of "ampList R r" "pd_body a (seg a)" "phase_diffs M"]
      pd_body_total assms(2) by blast
  with False show ?thesis
    by (simp add: amp_body_def parse_amplitude_well_formed [OF wf] ts eJPmL_of_def Let_def)
qed

lemma fill_maps_total:
  assumes "\<forall>a\<in>set (all_amps R). is_bkgd a \<or> well_formed a"
  shows "\<exists>M'. fill_maps R M = Inr M'"
proof -
  have "\<exists>N'. foldE (amp_body R r) (ampList R r) N = Inr N'" if "r \<in> set (reactionList R)" for r N
  proof (rule foldE_total)
    fix a N0
    assume "a \<in> set (ampList R r)"
    with that assms show "\<exists>N'. amp_body R r a N0 = Inr N'"
      by (intro amp_body_total) (auto simp: all_amps_def)
  qed
  then show ?thesis
    unfolding fill_maps_def Let_def by (rule foldE_total)
qed

lemma amp_body_fails:
  assumes "\<not> is_bkgd a" and "\<not> well_formed a"
  shows "amp_body R r a M = Inl OutOfRange"
  using assms by (simp add: amp_body_def parse_amplitude_ill_formed)

lemma fill_maps_fails:
  assumes "a \<in> set (all_amps R)" and "\<not> is_bkgd a" and "\<not> well_formed a"
  shows "fill_maps R M = Inl OutOfRange"
proof -
  from assms(1) obtain r where r: "r \<in> set (reactionList R)" and a: "a \<in> set (ampList R r)"
    by (auto simp: all_amps_def)
  have only: "e = OutOfRange" for e :: error
    by (cases e)
  have "foldE (amp_body R r) (ampList R r) N = Inl OutOfRange" for N
    by (rule foldE_fails [OF a]) (simp_all add: amp_body_fails [OF assms(2,3)] only)
  then show ?thesis
    unfolding fill_maps_def Let_def
    by (intro foldE_fails [OF r]) (simp_all add: only)
qed

subsection \<open>The coherent-sum groups after \<open>fill_maps\<close>\<close>

lemma group_push:
  "group_of (push_sum t k a cs) t' k' =
     (if t' = t \<and> k' = k then group_of cs t k @ [a] else group_of cs t' k')"
  by (simp add: group_of_def push_sum_def Let_def map_at_map_insert)

lemma group_fold_push:
  assumes "distinct tags"
  shows "group_of (fold (\<lambda>tag. push_sum tag (\<kappa> tag) a) tags cs) t k =
           group_of cs t k @ (if t \<in> set tags \<and> k = \<kappa> t then [a] else [])"
  using assms
proof (induction tags arbitrary: cs)
  case Nil
  then show ?case by simp
next
  case (Cons tag tags)
  then show ?case
    by (auto simp: group_push)
qed

lemma distinct_coherent_sum_types: "distinct coherent_sum_types"
  by (simp add: coherent_sum_types_def)

lemma group_sums_step:
  "group_of (sums_step a cs) t k = group_of cs t k @ (if routed a t k then [a] else [])"
proof (cases "is_bkgd a")
  case True
  then show ?thesis
    by (simp add: sums_step_def routed_def group_push)
next
  case False
  then show ?thesis
    by (simp add: sums_step_def routed_def group_fold_push [OF distinct_coherent_sum_types])
qed

lemma group_fold_sums_step:
  "group_of (fold sums_step as cs) t k = group_of cs t k @ filter (\<lambda>a. routed a t k) as"
  by (induction as arbitrary: cs) (simp_all add: group_sums_step)

lemma map_at_all_empty: "\<forall>p\<in>set m. snd p = [] \<Longrightarrow> map_at k m = []"
proof -
  assume a: "\<forall>p\<in>set m. snd p = []"
  show ?thesis
  proof (cases "map_of m k")
    case None
    then show ?thesis by (simp add: map_at_def)
  next
    case (Some v)
    then have "(k, v) \<in> set m" by (rule map_of_SomeD)
    with a have "v = []" by auto
    with Some show ?thesis by (simp add: map_at_def)
  qed
qed

lemma group_cleared: "group_of (coherent_sums (clear_maps M)) t k = []"
proof -
  have "map_at t (coherent_sums (clear_maps M)) = []"
    by (rule map_at_all_empty) (auto simp: clear_maps_def)
  then show ?thesis
    by (simp add: group_of_def map_at_def)
qed

lemma group_filled:
  assumes "fill_maps R (clear_maps M0) = Inr M"
  shows "group_of (coherent_sums M) t k = filter (\<lambda>a. routed a t k) (all_amps R)"
  by (simp add: fill_maps_view(1) [OF assms] group_fold_sums_step group_cleared)

lemma in_group_filled:
  assumes "fill_maps R (clear_maps M0) = Inr M"
  shows "a \<in> set (group_of (coherent_sums M) t k) \<longleftrightarrow> a \<in> set (all_amps R) \<and> routed a t k"
  by (simp add: group_filled [OF assms])

subsection \<open>The entries of the phase-difference map\<close>

lemma set_register:
  "set (register p pd) \<subseteq> set pd \<union>
     {e. e = (seg (fst p) @ ''_'' @ seg (snd p), p) \<and> char_at0 (seg (fst p)) = char_at0 (seg (snd p))}"
  using set_map_insert [of "seg (fst p) @ ''_'' @ seg (snd p)" p pd]
  by (auto simp: register_def)

lemma set_fold_register:
  "set (fold register ps pd) \<subseteq> set pd \<union>
     {e. \<exists>p\<in>set ps. e = (seg (fst p) @ ''_'' @ seg (snd p), p)
           \<and> char_at0 (seg (fst p)) = char_at0 (seg (snd p))}"
proof (induction ps arbitrary: pd)
  case Nil
  then show ?case by simp
next
  case (Cons p ps)
  have "set (fold register (p # ps) pd) \<subseteq> set (register p pd) \<union>
     {e. \<exists>p\<in>set ps. e = (seg (fst p) @ ''_'' @ seg (snd p), p)
           \<and> char_at0 (seg (fst p)) = char_at0 (seg (snd p))}"
    using Cons.IH [of "register p pd"] by simp
  with set_register [of p pd] show ?case
    by auto
qed

lemma in_partners:
  "p \<in> set (partners amps a) \<longleftrightarrow>
     fst p = a \<and> snd p \<in> set amps \<and> snd p \<noteq> a \<and> \<not> is_bkgd a \<and> \<not> is_bkgd (snd p)"
  by (cases p) (auto simp: partners_def)

lemma in_encounters:
  "p \<in> set (encounters R) \<longleftrightarrow>
     (\<exists>r\<in>set (reactionList R). fst p \<in> set (ampList R r) \<and> snd p \<in> set (ampList R r))
     \<and> fst p \<noteq> snd p \<and> \<not> is_bkgd (fst p) \<and> \<not> is_bkgd (snd p)"
  by (auto simp: encounters_def in_partners)

lemma entries_filled:
  assumes "fill_maps R (clear_maps M0) = Inr M" and "(key, p) \<in> set (phase_diffs M)"
  shows "p \<in> set (encounters R)" and "key = seg (fst p) @ ''_'' @ seg (snd p)"
    and "char_at0 (seg (fst p)) = char_at0 (seg (snd p))"
proof -
  have "phase_diffs M = fold register (encounters R) []"
    using fill_maps_view(2) [OF assms(1)] by (simp add: clear_maps_def)
  with assms(2) set_fold_register [of "encounters R" "[]"]
  have "p \<in> set (encounters R) \<and> key = seg (fst p) @ ''_'' @ seg (snd p)
        \<and> char_at0 (seg (fst p)) = char_at0 (seg (snd p))"
    by auto
  then show "p \<in> set (encounters R)" and "key = seg (fst p) @ ''_'' @ seg (snd p)"
    and "char_at0 (seg (fst p)) = char_at0 (seg (snd p))"
    by simp_all
qed

section \<open>The coherent sums\<close>

lemma encounters_amps:
  "p \<in> set (encounters R) \<Longrightarrow> fst p \<in> set (all_amps R) \<and> snd p \<in> set (all_amps R)"
  by (auto simp: in_encounters all_amps_def)

lemma key_inject:
  assumes "CHR ''_'' \<notin> set s" and "CHR ''_'' \<notin> set s'" and "s @ ''_'' @ t = s' @ ''_'' @ t'"
  shows "s = s' \<and> t = t'"
proof -
  have tw: "takeWhile (\<lambda>c. c \<noteq> CHR ''_'') (u @ ''_'' @ v) = u" if "CHR ''_'' \<notin> set u" for u v
    using that by (subst takeWhile_append2) auto
  from assms(3) have "takeWhile (\<lambda>c. c \<noteq> CHR ''_'') (s @ ''_'' @ t)
      = takeWhile (\<lambda>c. c \<noteq> CHR ''_'') (s' @ ''_'' @ t')"
    by simp
  then have "s = s'"
    by (simp only: tw [OF assms(1)] tw [OF assms(2)])
  with assms(3) show ?thesis by simp
qed

text \<open>
  Claim C1. Whenever every amplitude that is not background has a trailing segment of
  at least 4 characters, \<open>fill_maps\<close> returns, and in its coherent sums every amplitude
  that is not background lies in exactly 7 groups, the one of its key under each of the
  tags \<open>eJPmL\<close>, \<open>JPmL\<close>, \<open>eJPL\<close>, \<open>JPL\<close>, \<open>eJP\<close>, \<open>JP\<close>, \<open>e\<close>. Every group of a
  coarser tag is the union of the \<open>eJPmL\<close> groups whose label has that key under the
  tag; the labels are those of parsed amplitudes, the reserved group \<open>Bkgd\<close> of the
  background amplitudes is not one of them.
\<close>

theorem coherent_sum_grouping:
  assumes "\<forall>a\<in>set (all_amps R). is_bkgd a \<or> well_formed a"
  shows "\<exists>M. fill_maps R (clear_maps init_maps) = Inr M
     \<and> (\<forall>a\<in>set (all_amps R). \<not> is_bkgd a \<longrightarrow>
          {(tag, key). a \<in> set (group_of (coherent_sums M) tag key)}
            = (\<lambda>tag. (tag, sum_key tag (seg a))) ` set coherent_sum_types
          \<and> card {(tag, key). a \<in> set (group_of (coherent_sums M) tag key)} = 7)
     \<and> (\<forall>tag\<in>set coherent_sum_types. \<forall>key. tag \<noteq> ''eJPmL'' \<longrightarrow>
          set (group_of (coherent_sums M) tag key)
            = (\<Union>label\<in>{l. l \<noteq> ''Bkgd'' \<and> sum_key tag l = key}.
                 set (group_of (coherent_sums M) ''eJPmL'' label)))"
proof -
  obtain M where M: "fill_maps R (clear_maps init_maps) = Inr M"
    using fill_maps_total [OF assms] by blast
  note grp = in_group_filled [OF M]
  have seven: "{(tag, key). a \<in> set (group_of (coherent_sums M) tag key)}
            = (\<lambda>tag. (tag, sum_key tag (seg a))) ` set coherent_sum_types
          \<and> card {(tag, key). a \<in> set (group_of (coherent_sums M) tag key)} = 7"
    if a: "a \<in> set (all_amps R)" and nb: "\<not> is_bkgd a" for a
  proof -
    have eq: "{(tag, key). a \<in> set (group_of (coherent_sums M) tag key)}
            = (\<lambda>tag. (tag, sum_key tag (seg a))) ` set coherent_sum_types"
    proof (rule set_eqI)
      fix x :: "string \<times> string"
      obtain tag key where x: "x = (tag, key)" by (cases x)
      have "a \<in> set (group_of (coherent_sums M) tag key)
          \<longleftrightarrow> tag \<in> set coherent_sum_types \<and> key = sum_key tag (seg a)"
        using a nb by (simp add: grp routed_def)
      then show "x \<in> {(tag, key). a \<in> set (group_of (coherent_sums M) tag key)}
          \<longleftrightarrow> x \<in> (\<lambda>tag. (tag, sum_key tag (seg a))) ` set coherent_sum_types"
        by (auto simp: x image_iff)
    qed
    have "inj_on (\<lambda>tag. (tag, sum_key tag (seg a))) (set coherent_sum_types)"
      by (rule inj_onI) simp
    then have "card ((\<lambda>tag. (tag, sum_key tag (seg a))) ` set coherent_sum_types)
        = card (set coherent_sum_types)"
      by (rule card_image)
    also have "\<dots> = length coherent_sum_types"
      by (rule distinct_card) (rule distinct_coherent_sum_types)
    also have "\<dots> = 7"
      by (simp add: coherent_sum_types_def)
    finally show ?thesis
      using eq by simp
  qed
  have refine: "set (group_of (coherent_sums M) tag key)
            = (\<Union>label\<in>{l. l \<noteq> ''Bkgd'' \<and> sum_key tag l = key}.
                 set (group_of (coherent_sums M) ''eJPmL'' label))"
    if tag: "tag \<in> set coherent_sum_types" and coarse: "tag \<noteq> ''eJPmL''" for tag key
  proof -
    have fine: "a \<in> set (group_of (coherent_sums M) ''eJPmL'' label)
        \<longleftrightarrow> a \<in> set (all_amps R) \<and> \<not> is_bkgd a \<and> seg a = label"
      if "label \<noteq> ''Bkgd''" for a label
      using that by (auto simp: grp routed_def coherent_sum_types_def sum_key_def)
    have coarser: "a \<in> set (group_of (coherent_sums M) tag key)
        \<longleftrightarrow> a \<in> set (all_amps R) \<and> \<not> is_bkgd a \<and> sum_key tag (seg a) = key" for a
      using tag coarse by (auto simp: grp routed_def)
    show ?thesis
    proof (rule set_eqI)
      fix a
      show "a \<in> set (group_of (coherent_sums M) tag key)
        \<longleftrightarrow> a \<in> (\<Union>label\<in>{l. l \<noteq> ''Bkgd'' \<and> sum_key tag l = key}.
                 set (group_of (coherent_sums M) ''eJPmL'' label))"
        using seg_not_Bkgd [of a] by (auto simp: fine coarser)
    qed
  qed
  show ?thesis
  proof (intro exI [of _ M] conjI ballI allI impI)
    show "fill_maps R (clear_maps init_maps) = Inr M"
      by (rule M)
  qed (erule (1) seven [THEN conjunct1], erule (1) seven [THEN conjunct2], erule (1) refine)
qed

lemma example_amps:
  "all_amps example_results = [''R1::S::p1p0S'', ''R1::S::m1p0S'', ''R1::S::p1ppD'', ''R1::Bkgd::iso'']"
  by (simp add: all_amps_def example_results_def)

lemma example_well_formed: "\<forall>a\<in>set (all_amps example_results). is_bkgd a \<or> well_formed a"
  unfolding example_amps by code_simp

theorem coherent_sum_grouping_witness:
  "\<exists>M. fill_maps example_results (clear_maps init_maps) = Inr M
     \<and> card {(tag, key). ''R1::S::p1p0S'' \<in> set (group_of (coherent_sums M) tag key)} = 7
     \<and> set (group_of (coherent_sums M) ''JP'' ''1p'')
         = (\<Union>label\<in>{l. l \<noteq> ''Bkgd'' \<and> sum_key ''JP'' l = ''1p''}.
              set (group_of (coherent_sums M) ''eJPmL'' label))"
proof -
  have a: "''R1::S::p1p0S'' \<in> set (all_amps example_results)"
    by (simp add: example_amps)
  have nb: "\<not> is_bkgd ''R1::S::p1p0S''"
    by code_simp
  have tag: "''JP'' \<in> set coherent_sum_types" "''JP'' \<noteq> ''eJPmL''"
    by (simp_all add: coherent_sum_types_def)
  show ?thesis
    using coherent_sum_grouping [OF example_well_formed]
    apply (elim exE conjE)
    subgoal for M
      apply (rule exI [of _ M])
      apply (drule bspec [OF _ a])
      apply (drule bspec [OF _ tag(1)])
      apply (erule impE, rule nb)
      apply (elim conjE)
      apply simp
      done
    done
qed

section \<open>Background amplitudes\<close>

lemma bkgd_not_in_entries:
  assumes "fill_maps R (clear_maps M0) = Inr M" and "(key, pair) \<in> set (phase_diffs M)"
  shows "\<not> is_bkgd (fst pair) \<and> \<not> is_bkgd (snd pair)"
  using entries_filled(1) [OF assms] by (simp add: in_encounters)

lemma bkgd_never_registered:
  assumes "is_bkgd b"
  shows "pd_body a s b pd = Inr pd' \<Longrightarrow> pd' = pd"
    and "amp_body R r b M = Inr M' \<Longrightarrow> phase_diffs M' = phase_diffs M"
  using assms by (auto simp: pd_body_def amp_body_def split: if_splits)

lemma bkgd_routing:
  assumes "fill_maps R (clear_maps M0) = Inr M" and "b \<in> set (all_amps R)" and "is_bkgd b"
  shows "b \<in> set (group_of (coherent_sums M) ''eJPmL'' ''Bkgd'')"
    and "b \<in> set (group_of (coherent_sums M) tag key) \<Longrightarrow> tag = ''eJPmL'' \<and> key = ''Bkgd''"
    and "(k, pair) \<in> set (phase_diffs M) \<Longrightarrow> fst pair \<noteq> b \<and> snd pair \<noteq> b"
proof -
  show "b \<in> set (group_of (coherent_sums M) ''eJPmL'' ''Bkgd'')"
    using assms(2,3) by (simp add: in_group_filled [OF assms(1)] routed_def)
  show "tag = ''eJPmL'' \<and> key = ''Bkgd''" if "b \<in> set (group_of (coherent_sums M) tag key)"
    using that assms(3) by (simp add: in_group_filled [OF assms(1)] routed_def)
  show "fst pair \<noteq> b \<and> snd pair \<noteq> b" if "(k, pair) \<in> set (phase_diffs M)"
    using bkgd_not_in_entries [OF assms(1) that] assms(3) by auto
qed

text \<open>
  Claim C7. An amplitude with the background marker is stored, with its full name and
  without being parsed (its segment may be too short to parse), in the group \<open>Bkgd\<close> of
  the tag \<open>eJPmL\<close>, and it is in no other group of any tag. No phase difference is ever
  registered with it: as the partner in the inner loop it leaves the map unchanged, as
  the amplitude of the outer loop it never enters the inner loop, and no pair in the
  returned map has it as a member.
\<close>

theorem background_only_in_reserved_group:
  assumes "\<forall>a\<in>set (all_amps R). is_bkgd a \<or> well_formed a"
    and "b \<in> set (all_amps R)" and "is_bkgd b"
  shows "\<exists>M. fill_maps R (clear_maps init_maps) = Inr M
     \<and> b \<in> set (group_of (coherent_sums M) ''eJPmL'' ''Bkgd'')
     \<and> (\<forall>tag key. b \<in> set (group_of (coherent_sums M) tag key)
           \<longrightarrow> tag = ''eJPmL'' \<and> key = ''Bkgd'')
     \<and> (\<forall>key pair. (key, pair) \<in> set (phase_diffs M) \<longrightarrow> fst pair \<noteq> b \<and> snd pair \<noteq> b)
     \<and> (\<forall>a s pd pd'. pd_body a s b pd = Inr pd' \<longrightarrow> pd' = pd)
     \<and> (\<forall>r N N'. amp_body R r b N = Inr N' \<longrightarrow> phase_diffs N' = phase_diffs N)"
proof -
  obtain M where M: "fill_maps R (clear_maps init_maps) = Inr M"
    using fill_maps_total [OF assms(1)] by blast
  show ?thesis
  proof (intro exI [of _ M] conjI allI impI)
    show "fill_maps R (clear_maps init_maps) = Inr M"
      by (rule M)
    show "b \<in> set (group_of (coherent_sums M) ''eJPmL'' ''Bkgd'')"
      by (rule bkgd_routing(1) [OF M assms(2,3)])
  next
    fix a s pd pd'
    assume "pd_body a s b pd = Inr pd'"
    then show "pd' = pd"
      by (rule bkgd_never_registered(1) [OF assms(3)])
  next
    fix r N N'
    assume "amp_body R r b N = Inr N'"
    then show "phase_diffs N' = phase_diffs N"
      by (rule bkgd_never_registered(2) [OF assms(3)])
  next
    fix tag key
    assume "b \<in> set (group_of (coherent_sums M) tag key)"
    then show "tag = ''eJPmL''" and "key = ''Bkgd''"
      using bkgd_routing(2) [OF M assms(2,3)] by simp_all
  next
    fix key pair
    assume "(key, pair) \<in> set (phase_diffs M)"
    then show "fst pair \<noteq> b" and "snd pair \<noteq> b"
      using bkgd_routing(3) [OF M assms(2,3)] by simp_all
  qed
qed

theorem background_only_in_reserved_group_witness:
  "\<not> well_formed ''R1::Bkgd::iso''
   \<and> (\<exists>M. fill_maps example_results (clear_maps init_maps) = Inr M
     \<and> ''R1::Bkgd::iso'' \<in> set (group_of (coherent_sums M) ''eJPmL'' ''Bkgd'')
     \<and> ''R1::Bkgd::iso'' \<notin> set (group_of (coherent_sums M) ''e'' ''i'')
     \<and> (''p1p0S_iso'', (''R1::S::p1p0S'', ''R1::Bkgd::iso'')) \<notin> set (phase_diffs M))"
proof -
  have nwf: "\<not> well_formed ''R1::Bkgd::iso''"
    by code_simp
  have b: "''R1::Bkgd::iso'' \<in> set (all_amps example_results)"
    by (simp add: example_amps)
  have bk: "is_bkgd ''R1::Bkgd::iso''"
    by code_simp
  from background_only_in_reserved_group [OF example_well_formed b bk]
  obtain M where M: "fill_maps example_results (clear_maps init_maps) = Inr M"
    and g: "''R1::Bkgd::iso'' \<in> set (group_of (coherent_sums M) ''eJPmL'' ''Bkgd'')"
    and only: "\<And>tag key. ''R1::Bkgd::iso'' \<in> set (group_of (coherent_sums M) tag key)
                 \<Longrightarrow> tag = ''eJPmL'' \<and> key = ''Bkgd''"
    and pd: "\<And>key pair. (key, pair) \<in> set (phase_diffs M)
                 \<Longrightarrow> fst pair \<noteq> ''R1::Bkgd::iso'' \<and> snd pair \<noteq> ''R1::Bkgd::iso''"
    by blast
  have "''R1::Bkgd::iso'' \<notin> set (group_of (coherent_sums M) ''e'' ''i'')"
    using only [of "''e''" "''i''"] by auto
  moreover have "(''p1p0S_iso'', (''R1::S::p1p0S'', ''R1::Bkgd::iso'')) \<notin> set (phase_diffs M)"
    using pd [of "''p1p0S_iso''" "(''R1::S::p1p0S'', ''R1::Bkgd::iso'')"] by auto
  ultimately show ?thesis
    using nwf M g by blast
qed

text \<open>
  Claim C10. The background test looks for the markers in the complete identifier: an
  amplitude whose name contains \<open>Bkgd\<close> or \<open>iso\<close> at any place, the reaction and the
  sum segment included, is classified as background, put into the reserved group and
  kept out of every phase-difference pair, whatever its trailing segment is.
\<close>

theorem background_marker_anywhere:
  assumes "\<forall>x\<in>set (all_amps R). is_bkgd x \<or> well_formed x"
    and "a \<in> set (all_amps R)"
    and "a = u @ marker @ v" and "marker = ''Bkgd'' \<or> marker = ''iso''"
  shows "is_bkgd a
     \<and> (\<exists>M. fill_maps R (clear_maps init_maps) = Inr M
          \<and> a \<in> set (group_of (coherent_sums M) ''eJPmL'' ''Bkgd'')
          \<and> (\<forall>key. key \<noteq> ''Bkgd'' \<longrightarrow> a \<notin> set (group_of (coherent_sums M) ''eJPmL'' key))
          \<and> (\<forall>key pair. (key, pair) \<in> set (phase_diffs M)
                \<longrightarrow> fst pair \<noteq> a \<and> snd pair \<noteq> a))"
proof -
  have "str_find a marker \<noteq> None"
    unfolding str_find_iff using assms(3) by blast
  with assms(4) have bk: "is_bkgd a"
    by (auto simp: is_bkgd_def)
  obtain M where M: "fill_maps R (clear_maps init_maps) = Inr M"
    using fill_maps_total [OF assms(1)] by blast
  show ?thesis
  proof (intro exI [of _ M] conjI allI impI)
    show "is_bkgd a"
      by (rule bk)
    show "fill_maps R (clear_maps init_maps) = Inr M"
      by (rule M)
    show "a \<in> set (group_of (coherent_sums M) ''eJPmL'' ''Bkgd'')"
      by (rule bkgd_routing(1) [OF M assms(2) bk])
  next
    fix key :: string
    assume "key \<noteq> ''Bkgd''"
    then show "a \<notin> set (group_of (coherent_sums M) ''eJPmL'' key)"
      using bkgd_routing(2) [OF M assms(2) bk] by blast
  next
    fix key pair
    assume "(key, pair) \<in> set (phase_diffs M)"
    then show "fst pair \<noteq> a" and "snd pair \<noteq> a"
      using bkgd_routing(3) [OF M assms(2) bk] by simp_all
  qed
qed

theorem background_marker_anywhere_witness:
  "trailing_segment ''iso1::S::p1p0S'' = Inr ''p1p0S'' \<and> \<not> is_bkgd ''p1p0S''
   \<and> is_bkgd ''iso1::S::p1p0S''
   \<and> (\<exists>M. fill_maps example_marker_in_reaction (clear_maps init_maps) = Inr M
        \<and> ''iso1::S::p1p0S'' \<in> set (group_of (coherent_sums M) ''eJPmL'' ''Bkgd'')
        \<and> ''iso1::S::p1p0S'' \<notin> set (group_of (coherent_sums M) ''eJPmL'' ''p1p0S'')
        \<and> (''p1p0S_p1ppD'', (''iso1::S::p1p0S'', ''iso1::S::p1ppD'')) \<notin> set (phase_diffs M))"
proof -
  have amps: "all_amps example_marker_in_reaction = [''iso1::S::p1p0S'', ''iso1::S::p1ppD'']"
    by (simp add: all_amps_def example_marker_in_reaction_def example_results_def)
  have wf: "\<forall>x\<in>set (all_amps example_marker_in_reaction). is_bkgd x \<or> well_formed x"
    unfolding amps by code_simp
  have a: "''iso1::S::p1p0S'' \<in> set (all_amps example_marker_in_reaction)"
    by (simp add: amps)
  have form: "''iso1::S::p1p0S'' = [] @ ''iso'' @ ''1::S::p1p0S''"
    by simp
  have ts: "trailing_segment ''iso1::S::p1p0S'' = Inr ''p1p0S''"
    by code_simp
  have nb: "\<not> is_bkgd ''p1p0S''"
    by code_simp
  have marker: "''iso'' = ''Bkgd'' \<or> ''iso'' = ''iso''"
    by simp
  from background_marker_anywhere [OF wf a form marker]
  obtain M where bk: "is_bkgd ''iso1::S::p1p0S''"
    and M: "fill_maps example_marker_in_reaction (clear_maps init_maps) = Inr M"
    and g: "''iso1::S::p1p0S'' \<in> set (group_of (coherent_sums M) ''eJPmL'' ''Bkgd'')"
    and only: "\<And>key. key \<noteq> ''Bkgd''
                 \<Longrightarrow> ''iso1::S::p1p0S'' \<notin> set (group_of (coherent_sums M) ''eJPmL'' key)"
    and pd: "\<And>key pair. (key, pair) \<in> set (phase_diffs M)
                 \<Longrightarrow> fst pair \<noteq> ''iso1::S::p1p0S'' \<and> snd pair \<noteq> ''iso1::S::p1p0S''"
    by blast
  have "''iso1::S::p1p0S'' \<notin> set (group_of (coherent_sums M) ''eJPmL'' ''p1p0S'')"
    using only [of "''p1p0S''"] by simp
  moreover have "(''p1p0S_p1ppD'', (''iso1::S::p1p0S'', ''iso1::S::p1ppD'')) \<notin> set (phase_diffs M)"
    using pd [of "''p1p0S_p1ppD''" "(''iso1::S::p1p0S'', ''iso1::S::p1ppD'')"] by auto
  ultimately show ?thesis
    using ts nb bk M g by blast
qed

section \<open>The phase differences\<close>

lemma register_skip:
  "char_at0 (seg (fst p)) \<noteq> char_at0 (seg (snd p)) \<Longrightarrow> register p pd = pd"
  by (simp add: register_def)

lemma fold_register_filter:
  "fold register ps pd =
     fold register (filter (\<lambda>p. char_at0 (seg (fst p)) = char_at0 (seg (snd p))) ps) pd"
  by (induction ps arbitrary: pd) (simp_all add: register_skip)

lemma keys_register:
  assumes "char_at0 (seg (fst p)) = char_at0 (seg (snd p))"
  shows "fst ` set (register p pd) =
     (if seg (snd p) @ ''_'' @ seg (fst p) \<in> fst ` set pd then fst ` set pd
      else insert (seg (fst p) @ ''_'' @ seg (snd p)) (fst ` set pd))"
  using assms map_find_keys [of "seg (snd p) @ ''_'' @ seg (fst p)" pd]
  by (simp add: register_def keys_map_insert)

lemma keys_register_mono: "fst ` set pd \<subseteq> fst ` set (register p pd)"
proof (cases "char_at0 (seg (fst p)) = char_at0 (seg (snd p))")
  case True
  then show ?thesis
    by (auto simp: keys_register)
next
  case False
  then show ?thesis
    by (simp add: register_skip)
qed

lemma keys_fold_register_mono: "fst ` set pd \<subseteq> fst ` set (fold register ps pd)"
proof (induction ps arbitrary: pd)
  case Nil
  then show ?case by simp
next
  case (Cons p ps)
  have "fst ` set pd \<subseteq> fst ` set (register p pd)"
    by (rule keys_register_mono)
  also have "\<dots> \<subseteq> fst ` set (fold register ps (register p pd))"
    by (rule Cons.IH)
  finally show ?case by simp
qed

lemma one_orientation_registered:
  assumes "p \<in> set ps" and "char_at0 (seg (fst p)) = char_at0 (seg (snd p))"
  shows "seg (fst p) @ ''_'' @ seg (snd p) \<in> fst ` set (fold register ps pd)
       \<or> seg (snd p) @ ''_'' @ seg (fst p) \<in> fst ` set (fold register ps pd)"
  using assms(1)
proof (induction ps arbitrary: pd)
  case Nil
  then show ?case by simp
next
  case (Cons q ps)
  show ?case
  proof (cases "p = q")
    case True
    have "seg (fst p) @ ''_'' @ seg (snd p) \<in> fst ` set (register p pd)
       \<or> seg (snd p) @ ''_'' @ seg (fst p) \<in> fst ` set (register p pd)"
      by (simp add: keys_register [OF assms(2)])
    with keys_fold_register_mono [of "register p pd" ps] True show ?thesis
      by auto
  next
    case False
    with Cons.prems have "p \<in> set ps" by simp
    from Cons.IH [OF this, of "register q pd"] show ?thesis by simp
  qed
qed

lemma find_snoc:
  "List.find Q (xs @ [x]) =
     (case List.find Q xs of Some y \<Rightarrow> Some y | None \<Rightarrow> if Q x then Some x else None)"
  by (induction xs) auto

lemma first_orientation:
  assumes "\<forall>p\<in>set ps. char_at0 (seg (fst p)) = char_at0 (seg (snd p))
              \<and> CHR ''_'' \<notin> set (seg (fst p)) \<and> CHR ''_'' \<notin> set (seg (snd p))"
    and "s \<noteq> t" and "CHR ''_'' \<notin> set s" and "CHR ''_'' \<notin> set t"
  shows "s @ ''_'' @ t \<in> fst ` set (fold register ps [])
     \<longleftrightarrow> List.find (\<lambda>q. q = (s, t) \<or> q = (t, s)) (map (\<lambda>p. (seg (fst p), seg (snd p))) ps)
           = Some (s, t)"
  using assms
proof (induction ps arbitrary: s t rule: rev_induct)
  case Nil
  then show ?case by simp
next
  case (snoc p ps)
  let ?D = "fst ` set (fold register ps [])"
  let ?f = "\<lambda>p. (seg (fst p), seg (snd p))"
  let ?Q = "\<lambda>q. q = (s, t) \<or> q = (t, s)"
  let ?F = "List.find ?Q (map ?f ps)"
  have same: "char_at0 (seg (fst p)) = char_at0 (seg (snd p))"
    and up: "CHR ''_'' \<notin> set (seg (fst p))" "CHR ''_'' \<notin> set (seg (snd p))"
    using snoc.prems(1) by simp_all
  have rest: "\<forall>p\<in>set ps. char_at0 (seg (fst p)) = char_at0 (seg (snd p))
              \<and> CHR ''_'' \<notin> set (seg (fst p)) \<and> CHR ''_'' \<notin> set (seg (snd p))"
    using snoc.prems(1) by simp
  have ih1: "s @ ''_'' @ t \<in> ?D \<longleftrightarrow> ?F = Some (s, t)"
    by (rule snoc.IH [OF rest snoc.prems(2,3,4)])
  have Q_sym: "(\<lambda>q. q = (t, s) \<or> q = (s, t)) = ?Q"
    by auto
  have "t @ ''_'' @ s \<in> ?D
      \<longleftrightarrow> List.find (\<lambda>q. q = (t, s) \<or> q = (s, t)) (map ?f ps) = Some (t, s)"
    by (rule snoc.IH [OF rest snoc.prems(2) [symmetric] snoc.prems(4,3)])
  then have ih2: "t @ ''_'' @ s \<in> ?D \<longleftrightarrow> ?F = Some (t, s)"
    by (simp only: Q_sym)
  have keys: "fst ` set (fold register (ps @ [p]) []) =
      (if seg (snd p) @ ''_'' @ seg (fst p) \<in> ?D then ?D
       else insert (seg (fst p) @ ''_'' @ seg (snd p)) ?D)"
    by (simp add: keys_register [OF same])
  have found: "List.find ?Q (map ?f (ps @ [p])) =
      (case ?F of Some y \<Rightarrow> Some y | None \<Rightarrow> if ?Q (?f p) then Some (?f p) else None)"
    by (simp add: find_snoc)
  have new_st: "seg (fst p) = s \<and> seg (snd p) = t"
    if "seg (fst p) @ ''_'' @ seg (snd p) = s @ ''_'' @ t"
    using key_inject [OF up(1) snoc.prems(3) that] .
  have st_ts: "s @ ''_'' @ t \<noteq> t @ ''_'' @ s"
    using key_inject [OF snoc.prems(3,4), of t s] snoc.prems(2) by blast
  show ?case
  proof (cases ?F)
    case None
    with ih1 ih2 have notin: "s @ ''_'' @ t \<notin> ?D" "t @ ''_'' @ s \<notin> ?D"
      by simp_all
    consider (st) "?f p = (s, t)" | (ts) "?f p = (t, s)" | (other) "\<not> ?Q (?f p)"
      by blast
    then show ?thesis
    proof cases
      case st
      with notin None show ?thesis
        unfolding keys found by simp
    next
      case ts
      with notin None st_ts snoc.prems(2) show ?thesis
        unfolding keys found by auto
    next
      case other
      then have "seg (fst p) @ ''_'' @ seg (snd p) \<noteq> s @ ''_'' @ t"
        using new_st by auto
      with other notin None show ?thesis
        unfolding keys found by auto
    qed
  next
    case (Some y)
    then have "?Q y"
      by (auto simp: find_Some_iff)
    then consider (st) "y = (s, t)" | (ts) "y = (t, s)"
      by blast
    then show ?thesis
    proof cases
      case st
      with Some ih1 have "s @ ''_'' @ t \<in> ?D" by simp
      with Some st show ?thesis
        unfolding keys found by simp
    next
      case ts
      with Some ih1 ih2 snoc.prems(2) have in_ts: "t @ ''_'' @ s \<in> ?D" and notin: "s @ ''_'' @ t \<notin> ?D"
        by simp_all
      have "s @ ''_'' @ t \<notin> fst ` set (fold register (ps @ [p]) [])"
      proof
        assume "s @ ''_'' @ t \<in> fst ` set (fold register (ps @ [p]) [])"
        with notin have new: "seg (snd p) @ ''_'' @ seg (fst p) \<notin> ?D"
          and eq: "seg (fst p) @ ''_'' @ seg (snd p) = s @ ''_'' @ t"
          unfolding keys by (auto split: if_splits)
        from new_st [OF eq] new in_ts show False by simp
      qed
      with Some ts snoc.prems(2) show ?thesis
        unfolding found by simp
    qed
  qed
qed

lemma phase_diffs_filled:
  assumes "fill_maps R (clear_maps M0) = Inr M"
  shows "phase_diffs M = fold register (encounters R) []"
  using fill_maps_view(2) [OF assms] by (simp add: clear_maps_def)

lemma key_spelled_by_entry:
  assumes M: "fill_maps R (clear_maps M0) = Inr M" and uf: "underscore_free R"
    and s: "CHR ''_'' \<notin> set s" and key: "map_find (s @ ''_'' @ t) (phase_diffs M) \<noteq> None"
  shows "\<exists>p\<in>set (encounters R). seg (fst p) = s \<and> seg (snd p) = t
           \<and> char_at0 (seg (fst p)) = char_at0 (seg (snd p))"
proof -
  from key obtain p where entry: "(s @ ''_'' @ t, p) \<in> set (phase_diffs M)"
    unfolding map_find_keys by auto
  note e = entries_filled [OF M entry]
  from e(1) have "fst p \<in> set (all_amps R)" and "\<not> is_bkgd (fst p)"
    by (simp_all add: encounters_amps in_encounters)
  with uf have "CHR ''_'' \<notin> set (seg (fst p))"
    by (auto simp: underscore_free_def)
  from key_inject [OF this s e(2) [symmetric]] e(1,3) show ?thesis
    by auto
qed

text \<open>
  Claim C3. For two amplitudes whose reflectivity fields differ, the statement that
  registers a phase difference is never reached, whichever of the two is the amplitude
  of the outer loop: the loop body leaves the map as it is, and the map that
  \<open>fill_maps\<close> returns has no entry for the pair in either orientation.
  When in addition no trailing segment contains an underscore, so that a key spells one
  pair of segments only, neither \<open>eJPmL_A_eJPmL_B\<close> nor \<open>eJPmL_B_eJPmL_A\<close> is a key of the
  map.
\<close>

theorem no_phase_difference_across_reflectivities:
  assumes "\<forall>x\<in>set (all_amps R). is_bkgd x \<or> well_formed x"
    and "char_at0 (seg a) \<noteq> char_at0 (seg b)"
  shows "(\<forall>pd pd'. pd_body a (seg a) b pd = Inr pd' \<longrightarrow> pd' = pd)
     \<and> (\<forall>pd pd'. pd_body b (seg b) a pd = Inr pd' \<longrightarrow> pd' = pd)
     \<and> (\<exists>M. fill_maps R (clear_maps init_maps) = Inr M
          \<and> (\<forall>key. (key, (a, b)) \<notin> set (phase_diffs M) \<and> (key, (b, a)) \<notin> set (phase_diffs M))
          \<and> (underscore_free R \<and> CHR ''_'' \<notin> set (seg a) \<and> CHR ''_'' \<notin> set (seg b) \<longrightarrow>
                map_find (seg a @ ''_'' @ seg b) (phase_diffs M) = None
              \<and> map_find (seg b @ ''_'' @ seg a) (phase_diffs M) = None))"
proof -
  have step: "pd' = pd" if "pd_body a (seg a) b pd = Inr pd'" for pd pd'
    using pd_body_view [OF that] assms(2) by (simp add: register_def)
  have step': "pd' = pd" if "pd_body b (seg b) a pd = Inr pd'" for pd pd'
    using pd_body_view [OF that] assms(2) by (simp add: register_def)
  obtain M where M: "fill_maps R (clear_maps init_maps) = Inr M"
    using fill_maps_total [OF assms(1)] by blast
  have no_entry: "(key, (a, b)) \<notin> set (phase_diffs M) \<and> (key, (b, a)) \<notin> set (phase_diffs M)"
    for key
    using entries_filled(3) [OF M, of key "(a, b)"] entries_filled(3) [OF M, of key "(b, a)"]
      assms(2) by auto
  have no_key: "map_find (seg a @ ''_'' @ seg b) (phase_diffs M) = None
              \<and> map_find (seg b @ ''_'' @ seg a) (phase_diffs M) = None"
    if uf: "underscore_free R" and ua: "CHR ''_'' \<notin> set (seg a)" and ub: "CHR ''_'' \<notin> set (seg b)"
  proof (rule ccontr)
    assume "\<not> ?thesis"
    then consider "map_find (seg a @ ''_'' @ seg b) (phase_diffs M) \<noteq> None"
      | "map_find (seg b @ ''_'' @ seg a) (phase_diffs M) \<noteq> None"
      by auto
    then show False
    proof cases
      case 1
      from key_spelled_by_entry [OF M uf ua 1] assms(2) show False by auto
    next
      case 2
      from key_spelled_by_entry [OF M uf ub 2] assms(2) show False by auto
    qed
  qed
  show ?thesis
  proof (intro conjI allI impI exI [of _ M])
    show "fill_maps R (clear_maps init_maps) = Inr M"
      by (rule M)
  qed (use step step' no_entry no_key in blast)+
qed

lemma example_underscore_free: "underscore_free example_results"
  unfolding underscore_free_def example_amps by code_simp

theorem no_phase_difference_across_reflectivities_witness:
  "char_at0 (seg ''R1::S::p1p0S'') \<noteq> char_at0 (seg ''R1::S::m1p0S'')
   \<and> (\<exists>M. fill_maps example_results (clear_maps init_maps) = Inr M
        \<and> (''p1p0S_m1p0S'', (''R1::S::p1p0S'', ''R1::S::m1p0S'')) \<notin> set (phase_diffs M)
        \<and> map_find ''p1p0S_m1p0S'' (phase_diffs M) = None
        \<and> map_find ''m1p0S_p1p0S'' (phase_diffs M) = None)"
proof -
  have refl: "char_at0 (seg ''R1::S::p1p0S'') \<noteq> char_at0 (seg ''R1::S::m1p0S'')"
    by code_simp
  have segs: "seg ''R1::S::p1p0S'' = ''p1p0S''" "seg ''R1::S::m1p0S'' = ''m1p0S''"
    by code_simp+
  from no_phase_difference_across_reflectivities [OF example_well_formed refl]
  obtain M where M: "fill_maps example_results (clear_maps init_maps) = Inr M"
    and no_entry: "\<And>key. (key, (''R1::S::p1p0S'', ''R1::S::m1p0S'')) \<notin> set (phase_diffs M)"
    and no_key: "underscore_free example_results \<and> CHR ''_'' \<notin> set (seg ''R1::S::p1p0S'')
          \<and> CHR ''_'' \<notin> set (seg ''R1::S::m1p0S'') \<longrightarrow>
                map_find (seg ''R1::S::p1p0S'' @ ''_'' @ seg ''R1::S::m1p0S'') (phase_diffs M) = None
              \<and> map_find (seg ''R1::S::m1p0S'' @ ''_'' @ seg ''R1::S::p1p0S'') (phase_diffs M) = None"
    by blast
  from no_key example_underscore_free
  have "map_find ''p1p0S_m1p0S'' (phase_diffs M) = None
      \<and> map_find ''m1p0S_p1p0S'' (phase_diffs M) = None"
    by (simp add: segs)
  with refl M no_entry show ?thesis
    by blast
qed

text \<open>
  Claim C2, as stated, fails. In the first input the trailing segments contain
  underscores: the amplitudes with the segments \<open>pxyz\<close> and \<open>pabc_pdef\<close> are registered
  as \<open>pxyz_pabc_pdef\<close>, and the pair with the segments \<open>pabc\<close> and \<open>pdef_pxyz\<close> is later
  registered under \<open>pabc_pdef_pxyz\<close>, which spells the first pair in the other
  orientation, so both keys are present. In the second input two distinct amplitudes
  share their trailing segment, as the same wave does in two sums: the two keys are one
  string, and it is present.
\<close>

theorem one_key_per_pair_counterexample:
  "(case fill_maps example_underscores (clear_maps init_maps) of
      Inl err \<Rightarrow> False
    | Inr M \<Rightarrow>
        ''R1'' \<in> set (reactionList example_underscores)
      \<and> ''R1::S::pxyz'' \<in> set (ampList example_underscores ''R1'')
      \<and> ''R1::S::pabc_pdef'' \<in> set (ampList example_underscores ''R1'')
      \<and> \<not> is_bkgd ''R1::S::pxyz'' \<and> \<not> is_bkgd ''R1::S::pabc_pdef''
      \<and> char_at0 (seg ''R1::S::pxyz'') = char_at0 (seg ''R1::S::pabc_pdef'')
      \<and> map_find ''pxyz_pabc_pdef'' (phase_diffs M) \<noteq> None
      \<and> map_find ''pabc_pdef_pxyz'' (phase_diffs M) \<noteq> None
      \<and> \<not> exactly_one_key (phase_diffs M) ''R1::S::pxyz'' ''R1::S::pabc_pdef'')
   \<and> (case fill_maps example_twins (clear_maps init_maps) of
      Inl err \<Rightarrow> False
    | Inr M \<Rightarrow>
        ''R1::ImagPosSign::p1p0S'' \<in> set (ampList example_twins ''R1'')
      \<and> ''R1::RealNegSign::p1p0S'' \<in> set (ampList example_twins ''R1'')
      \<and> \<not> is_bkgd ''R1::ImagPosSign::p1p0S'' \<and> \<not> is_bkgd ''R1::RealNegSign::p1p0S''
      \<and> map_find ''p1p0S_p1p0S'' (phase_diffs M) \<noteq> None
      \<and> \<not> exactly_one_key (phase_diffs M) ''R1::ImagPosSign::p1p0S'' ''R1::RealNegSign::p1p0S'')"
  by code_simp

text \<open>
  Claim C2, amended. Let two distinct amplitudes that are not background and have the
  same reflectivity occur in the amplitude list of one reaction, and let no trailing
  segment of an amplitude that is not background contain an underscore. If the two
  trailing segments are equal, the two keys are the same key and it is present. If they
  differ, exactly one of \<open>eJPmL_A_eJPmL_B\<close> and \<open>eJPmL_B_eJPmL_A\<close> is present, and it is
  the one whose orientation is that of the first pair of amplitudes with these two
  segments that the loops encounter.
\<close>

theorem phase_difference_key_per_pair:
  assumes "\<forall>x\<in>set (all_amps R). is_bkgd x \<or> well_formed x"
    and "underscore_free R"
    and "r \<in> set (reactionList R)" and "a \<in> set (ampList R r)" and "b \<in> set (ampList R r)"
    and "a \<noteq> b" and "\<not> is_bkgd a" and "\<not> is_bkgd b"
    and "char_at0 (seg a) = char_at0 (seg b)"
  shows "\<exists>M. fill_maps R (clear_maps init_maps) = Inr M
     \<and> (seg a = seg b \<longrightarrow> map_find (seg a @ ''_'' @ seg b) (phase_diffs M) \<noteq> None)
     \<and> (seg a \<noteq> seg b \<longrightarrow>
          exactly_one_key (phase_diffs M) a b
        \<and> (map_find (seg a @ ''_'' @ seg b) (phase_diffs M) \<noteq> None
            \<longleftrightarrow> List.find (\<lambda>q. q = (seg a, seg b) \<or> q = (seg b, seg a)) (seg_encounters R)
                  = Some (seg a, seg b)))"
proof -
  obtain M where M: "fill_maps R (clear_maps init_maps) = Inr M"
    using fill_maps_total [OF assms(1)] by blast
  let ?same = "\<lambda>p. char_at0 (seg (fst p)) = char_at0 (seg (snd p))"
  let ?ps = "filter ?same (encounters R)"
  let ?Q = "\<lambda>q. q = (seg a, seg b) \<or> q = (seg b, seg a)"
  have pd: "phase_diffs M = fold register ?ps []"
    using phase_diffs_filled [OF M] fold_register_filter [of "encounters R" "[]"] by simp
  have ab: "(a, b) \<in> set (encounters R)"
    using assms(3-8) by (auto simp: in_encounters)
  have in_amps: "a \<in> set (all_amps R)" "b \<in> set (all_amps R)"
    using encounters_amps [OF ab] by simp_all
  have ua: "CHR ''_'' \<notin> set (seg a)" and ub: "CHR ''_'' \<notin> set (seg b)"
    using assms(2,7,8) in_amps by (auto simp: underscore_free_def)
  have twin: "map_find (seg a @ ''_'' @ seg b) (phase_diffs M) \<noteq> None" if "seg a = seg b"
  proof -
    have "seg a @ ''_'' @ seg b \<in> fst ` set (phase_diffs M)"
      using one_orientation_registered [of "(a, b)" "encounters R" "[]"] ab assms(9) that
      by (simp add: phase_diffs_filled [OF M])
    then show ?thesis
      by (simp only: map_find_keys)
  qed
  have good: "\<forall>p\<in>set ?ps. ?same p
      \<and> CHR ''_'' \<notin> set (seg (fst p)) \<and> CHR ''_'' \<notin> set (seg (snd p))"
  proof
    fix p
    assume "p \<in> set ?ps"
    then have p: "p \<in> set (encounters R)" and same: "?same p"
      by simp_all
    from p have "\<not> is_bkgd (fst p)" "\<not> is_bkgd (snd p)"
      by (simp_all add: in_encounters)
    with encounters_amps [OF p] assms(2) same
    show "?same p \<and> CHR ''_'' \<notin> set (seg (fst p)) \<and> CHR ''_'' \<notin> set (seg (snd p))"
      by (auto simp: underscore_free_def)
  qed
  have distinct_segs: "exactly_one_key (phase_diffs M) a b
        \<and> (map_find (seg a @ ''_'' @ seg b) (phase_diffs M) \<noteq> None
            \<longleftrightarrow> List.find ?Q (seg_encounters R) = Some (seg a, seg b))"
    if ne: "seg a \<noteq> seg b"
  proof -
    have Q_sym: "(\<lambda>q. q = (seg b, seg a) \<or> q = (seg a, seg b)) = ?Q"
      by auto
    have "seg a @ ''_'' @ seg b \<in> fst ` set (phase_diffs M)
        \<longleftrightarrow> List.find ?Q (seg_encounters R) = Some (seg a, seg b)"
      unfolding pd seg_encounters_def by (rule first_orientation [OF good ne ua ub])
    then have fwd: "map_find (seg a @ ''_'' @ seg b) (phase_diffs M) \<noteq> None
        \<longleftrightarrow> List.find ?Q (seg_encounters R) = Some (seg a, seg b)"
      by (simp only: map_find_keys)
    have "seg b @ ''_'' @ seg a \<in> fst ` set (phase_diffs M)
        \<longleftrightarrow> List.find (\<lambda>q. q = (seg b, seg a) \<or> q = (seg a, seg b)) (seg_encounters R)
              = Some (seg b, seg a)"
      unfolding pd seg_encounters_def by (rule first_orientation [OF good ne [symmetric] ub ua])
    then have "map_find (seg b @ ''_'' @ seg a) (phase_diffs M) \<noteq> None
        \<longleftrightarrow> List.find (\<lambda>q. q = (seg b, seg a) \<or> q = (seg a, seg b)) (seg_encounters R)
              = Some (seg b, seg a)"
      by (simp only: map_find_keys)
    then have bwd: "map_find (seg b @ ''_'' @ seg a) (phase_diffs M) \<noteq> None
        \<longleftrightarrow> List.find ?Q (seg_encounters R) = Some (seg b, seg a)"
      by (simp only: Q_sym)
    have "(seg a, seg b) \<in> set (seg_encounters R)"
      using ab assms(9) by (force simp: seg_encounters_def)
    then have "List.find ?Q (seg_encounters R) \<noteq> None"
      unfolding find_None_iff by blast
    then obtain y where y: "List.find ?Q (seg_encounters R) = Some y"
      by blast
    then have "?Q y"
      by (auto simp: find_Some_iff)
    with y ne have "(List.find ?Q (seg_encounters R) = Some (seg a, seg b))
        \<noteq> (List.find ?Q (seg_encounters R) = Some (seg b, seg a))"
      by auto
    with fwd bwd show ?thesis
      by (simp add: exactly_one_key_def)
  qed
  show ?thesis
  proof (intro exI [of _ M] conjI impI)
    show "fill_maps R (clear_maps init_maps) = Inr M"
      by (rule M)
  qed (use twin distinct_segs in simp_all)
qed

theorem phase_difference_key_per_pair_witness:
  "\<exists>M. fill_maps example_results (clear_maps init_maps) = Inr M
     \<and> exactly_one_key (phase_diffs M) ''R1::S::p1p0S'' ''R1::S::p1ppD''
     \<and> map_find ''p1p0S_p1ppD'' (phase_diffs M) \<noteq> None"
proof -
  have r: "''R1'' \<in> set (reactionList example_results)"
    and a: "''R1::S::p1p0S'' \<in> set (ampList example_results ''R1'')"
    and b: "''R1::S::p1ppD'' \<in> set (ampList example_results ''R1'')"
    by (simp_all add: example_results_def)
  have ne: "''R1::S::p1p0S'' \<noteq> ''R1::S::p1ppD''"
    by simp
  have nb: "\<not> is_bkgd ''R1::S::p1p0S''" "\<not> is_bkgd ''R1::S::p1ppD''"
    by code_simp+
  have segs: "seg ''R1::S::p1p0S'' = ''p1p0S''" "seg ''R1::S::p1ppD'' = ''p1ppD''"
    by code_simp+
  have refl: "char_at0 (seg ''R1::S::p1p0S'') = char_at0 (seg ''R1::S::p1ppD'')"
    by (simp add: segs char_at0_def)
  have first: "List.find (\<lambda>q. q = (''p1p0S'', ''p1ppD'') \<or> q = (''p1ppD'', ''p1p0S''))
      (seg_encounters example_results) = Some (''p1p0S'', ''p1ppD'')"
    by code_simp
  from phase_difference_key_per_pair
    [OF example_well_formed example_underscore_free r a b ne nb refl]
  obtain M where M: "fill_maps example_results (clear_maps init_maps) = Inr M"
    and one: "exactly_one_key (phase_diffs M) ''R1::S::p1p0S'' ''R1::S::p1ppD''"
    and orient: "map_find ''p1p0S_p1ppD'' (phase_diffs M) \<noteq> None
        \<longleftrightarrow> List.find (\<lambda>q. q = (''p1p0S'', ''p1ppD'') \<or> q = (''p1ppD'', ''p1p0S''))
              (seg_encounters example_results) = Some (''p1p0S'', ''p1ppD'')"
    by (auto simp: segs)
  from M one orient first show ?thesis
    by blast
qed

section \<open>What the loop over the files writes and asks\<close>

lemma csv_put [simp]: "csv (put txt out) = csv out @ txt"
  by (simp add: put_def)

lemma queries_put [simp]: "queries (put txt out) = queries out"
  by (simp add: put_def)

lemma csv_ask [simp]: "csv (ask q out) = csv out"
  by (simp add: ask_def)

lemma queries_ask [simp]: "queries (ask q out) = queries out @ [q]"
  by (simp add: ask_def)

lemma csv_fold:
  assumes "\<And>x out. csv (f x out) = csv out @ g x"
  shows "csv (fold f xs out) = csv out @ concat (map g xs)"
  by (induction xs arbitrary: out) (simp_all add: assms)

lemma queries_fold:
  assumes "\<And>x out. queries (f x out) = queries out @ g x"
  shows "queries (fold f xs out) = queries out @ concat (map g xs)"
  by (induction xs arbitrary: out) (simp_all add: assms)

lemma concat_map_concat:
  "concat (map (\<lambda>p. concat (map h (k p))) xs) = concat (map h (concat (map k xs)))"
  by (induction xs) simp_all

lemma sum_groups_alt: "sum_groups cs = concat (map (\<lambda>p. map_at (fst p) cs) cs)"
  by (simp add: sum_groups_def split_def)

subsection \<open>The header\<close>

lemma csv_header_standard:
  "csv (header_standard sr out) = csv out @ concat (map (\<lambda>p. fst p @ '','') sr)"
  unfolding header_standard_def by (rule csv_fold) (simp add: case_prod_beta)

lemma csv_header_pars:
  "csv (header_pars R out) = csv out @
     concat (map (\<lambda>n. if str_find n ''::'' \<noteq> None then [] else n @ '','' @ n @ ''_err,'')
               (parNameList R))"
proof -
  have "csv (header_pars R out) = csv (ask Q_parNameList out) @
     concat (map (\<lambda>n. if str_find n ''::'' \<noteq> None then [] else n @ '','' @ n @ ''_err,'')
               (parNameList R))"
    unfolding header_pars_def by (rule csv_fold) simp
  then show ?thesis by simp
qed

lemma csv_header_production:
  "csv (header_production pc out) = csv out @
     concat (map (\<lambda>p. fst p @ ''_re'' @ '','' @ fst p @ ''_im'' @ '','') pc)"
  unfolding header_production_def by (rule csv_fold) (simp add: case_prod_beta)

lemma csv_header_sums:
  "csv (header_sums cs out) = csv out @
     concat (map (\<lambda>sum. sum @ '','' @ sum @ ''_err,'') (sum_columns cs))"
proof -
  have inner: "csv (fold (\<lambda>(sum, amp_vector) out. put ''_err,'' (put sum (put '','' (put sum out))))
                  groups out) =
      csv out @ concat (map (\<lambda>g. fst g @ '','' @ fst g @ ''_err,'') groups)" for groups out
    by (rule csv_fold) (simp add: case_prod_beta)
  have "csv (header_sums cs out) = csv out @
      concat (map (\<lambda>p. concat (map (\<lambda>g. fst g @ '','' @ fst g @ ''_err,'') (map_at (fst p) cs))) cs)"
    unfolding header_sums_def by (rule csv_fold) (simp add: case_prod_beta inner)
  also have "concat (map (\<lambda>p. concat (map (\<lambda>g. fst g @ '','' @ fst g @ ''_err,'')
                 (map_at (fst p) cs))) cs)
      = concat (map (\<lambda>sum. sum @ '','' @ sum @ ''_err,'') (sum_columns cs))"
    by (simp add: sum_columns_def sum_groups_alt comp_def
          concat_map_concat [where k = "\<lambda>p. map_at (fst p) cs"])
  finally show ?thesis .
qed

lemma csv_header_pds:
  "csv (header_pds pd out) = csv out @
     concat (map (\<lambda>p. fst p @ '','' @ fst p @ ''_err,'') pd)"
  unfolding header_pds_def by (rule csv_fold) (simp add: case_prod_beta)

lemma csv_write_header:
  "csv (write_header R M out) = csv out @ csv (write_header R M empty_sink)"
  by (simp add: write_header_def empty_sink_def csv_header_standard csv_header_pars
        csv_header_production csv_header_sums csv_header_pds)

lemma csv_write_header_nonempty: "csv (write_header R M out) \<noteq> []"
  by (simp add: write_header_def)

subsection \<open>The values\<close>

lemma csv_values_standard:
  "csv (values_standard sd sr out) = csv out @ concat (map (\<lambda>p. sd (snd p) @ '','') sr)"
  unfolding values_standard_def by (rule csv_fold) (simp add: case_prod_beta)

lemma queries_values_standard: "queries (values_standard sd sr out) = queries out"
proof -
  have "queries (values_standard sd sr out) = queries out @ concat (map (\<lambda>p. []) sr)"
    unfolding values_standard_def by (rule queries_fold) (simp add: case_prod_beta)
  then show ?thesis by simp
qed

lemma csv_values_pars:
  "csv (values_pars sd R out) = csv out @
     concat (map (\<lambda>n. if str_find n ''::'' \<noteq> None then []
                      else sd (parValue R n) @ '','' @ sd (parError R n) @ '','')
               (parNameList R))"
proof -
  have "csv (values_pars sd R out) = csv (ask Q_parNameList out) @
     concat (map (\<lambda>n. if str_find n ''::'' \<noteq> None then []
                      else sd (parValue R n) @ '','' @ sd (parError R n) @ '','')
               (parNameList R))"
    unfolding values_pars_def by (rule csv_fold) simp
  then show ?thesis by simp
qed

lemma queries_values_pars:
  "queries (values_pars sd R out) = queries out @ [Q_parNameList] @
     concat (map (\<lambda>n. if str_find n ''::'' \<noteq> None then [] else [Q_parValue n, Q_parError n])
               (parNameList R))"
proof -
  have "queries (values_pars sd R out) = queries (ask Q_parNameList out) @
     concat (map (\<lambda>n. if str_find n ''::'' \<noteq> None then [] else [Q_parValue n, Q_parError n])
               (parNameList R))"
    unfolding values_pars_def by (rule queries_fold) simp
  then show ?thesis by simp
qed

lemma csv_values_production:
  "csv (values_production sd pc out) = csv out @
     concat (map (\<lambda>p. sd (fst (snd p)) @ '','' @ sd (snd (snd p)) @ '','') pc)"
  unfolding values_production_def by (rule csv_fold) (simp add: case_prod_beta)

lemma queries_values_production: "queries (values_production sd pc out) = queries out"
proof -
  have "queries (values_production sd pc out) = queries out @ concat (map (\<lambda>p. []) pc)"
    unfolding values_production_def by (rule queries_fold) (simp add: case_prod_beta)
  then show ?thesis by simp
qed

lemma csv_values_sums:
  "csv (values_sums sd R acc cs out) = csv out @
     concat (map (\<lambda>g. sd (fst (intensity R (snd g) acc)) @ '','' @
                      sd (snd (intensity R (snd g) acc)) @ '','') (sum_groups cs))"
proof -
  let ?cell = "\<lambda>g. sd (fst (intensity R (snd g) acc)) @ '','' @
                   sd (snd (intensity R (snd g) acc)) @ '',''"
  have inner: "csv (fold (\<lambda>(sum, amp_vector) out.
                     put '','' (put (sd (snd (intensity R amp_vector acc)))
                       (ask (Q_intensity amp_vector acc)
                       (put '','' (put (sd (fst (intensity R amp_vector acc)))
                       (ask (Q_intensity amp_vector acc) out)))))) groups out) =
      csv out @ concat (map ?cell groups)" for groups out
    by (rule csv_fold) (simp add: case_prod_beta)
  have "csv (values_sums sd R acc cs out) = csv out @
      concat (map (\<lambda>p. concat (map ?cell (map_at (fst p) cs))) cs)"
    unfolding values_sums_def by (rule csv_fold) (simp add: case_prod_beta inner)
  also have "concat (map (\<lambda>p. concat (map ?cell (map_at (fst p) cs))) cs)
      = concat (map ?cell (sum_groups cs))"
    by (simp add: sum_groups_alt concat_map_concat [where k = "\<lambda>p. map_at (fst p) cs"])
  finally show ?thesis .
qed

lemma queries_values_sums:
  "queries (values_sums sd R acc cs out) = queries out @
     concat (map (\<lambda>g. [Q_intensity (snd g) acc, Q_intensity (snd g) acc]) (sum_groups cs))"
proof -
  let ?asked = "\<lambda>g. [Q_intensity (snd g) acc, Q_intensity (snd g) acc]"
  have inner: "queries (fold (\<lambda>(sum, amp_vector) out.
                     put '','' (put (sd (snd (intensity R amp_vector acc)))
                       (ask (Q_intensity amp_vector acc)
                       (put '','' (put (sd (fst (intensity R amp_vector acc)))
                       (ask (Q_intensity amp_vector acc) out)))))) groups out) =
      queries out @ concat (map ?asked groups)" for groups out
    by (rule queries_fold) (simp add: case_prod_beta)
  have "queries (values_sums sd R acc cs out) = queries out @
      concat (map (\<lambda>p. concat (map ?asked (map_at (fst p) cs))) cs)"
    unfolding values_sums_def by (rule queries_fold) (simp add: case_prod_beta inner)
  also have "concat (map (\<lambda>p. concat (map ?asked (map_at (fst p) cs))) cs)
      = concat (map ?asked (sum_groups cs))"
    by (simp add: sum_groups_alt concat_map_concat [where k = "\<lambda>p. map_at (fst p) cs"])
  finally show ?thesis .
qed

lemma csv_values_pds:
  "csv (values_pds sd R pd out) = csv out @
     concat (map (\<lambda>p. sd (fst (phaseDiff R (fst (snd p)) (snd (snd p)))) @ '','' @
                      sd (snd (phaseDiff R (fst (snd p)) (snd (snd p)))) @ '','') pd)"
  unfolding values_pds_def by (rule csv_fold) (simp add: case_prod_beta)

lemma queries_values_pds:
  "queries (values_pds sd R pd out) = queries out @
     concat (map (\<lambda>p. [Q_phaseDiff (fst (snd p)) (snd (snd p)),
                       Q_phaseDiff (fst (snd p)) (snd (snd p))]) pd)"
  unfolding values_pds_def by (rule queries_fold) (simp add: case_prod_beta)

lemma csv_write_values:
  "csv (write_values sd R acc M out) = csv out @ csv (write_values sd R acc M empty_sink)"
  by (simp add: write_values_def empty_sink_def csv_values_standard csv_values_pars
        csv_values_production csv_values_sums csv_values_pds)

lemma queries_write_values:
  "queries (write_values sd R acc M out) = queries out @ [Q_parNameList] @
     concat (map (\<lambda>n. if str_find n ''::'' \<noteq> None then [] else [Q_parValue n, Q_parError n])
               (parNameList R)) @
     concat (map (\<lambda>g. [Q_intensity (snd g) acc, Q_intensity (snd g) acc])
               (sum_groups (coherent_sums M))) @
     concat (map (\<lambda>p. [Q_phaseDiff (fst (snd p)) (snd (snd p)),
                       Q_phaseDiff (fst (snd p)) (snd (snd p))]) (phase_diffs M))"
  by (simp add: write_values_def queries_values_standard queries_values_pars
        queries_values_production queries_values_sums queries_values_pds)

section \<open>The order of the coherent-sum columns\<close>

lemma map_at_entry:
  assumes "sorted_wrt (<) (map fst m)" and "(k::'k::linorder, v) \<in> set m"
  shows "map_at k m = v"
  using map_of_sorted_entry [OF assms] by (simp add: map_at_def)

lemma map_at_cases: "map_at k m = [] \<or> (k, map_at k m) \<in> set m"
  by (cases "map_of m k") (auto simp: map_at_def dest: map_of_SomeD)

lemma sums_ok_push:
  assumes "sums_ok cs"
  shows "sums_ok (push_sum tag key a cs)"
proof -
  let ?inner = "map_at tag cs"
  let ?inner' = "map_insert key (map_at key ?inner @ [a]) ?inner"
  have inner: "sorted_wrt (<) (map fst ?inner) \<and> (\<forall>g\<in>set ?inner. snd g \<noteq> [])"
  proof (cases "?inner = []")
    case True
    then show ?thesis by simp
  next
    case False
    with map_at_cases [of tag cs] have "(tag, ?inner) \<in> set cs"
      by simp
    with assms show ?thesis
      unfolding sums_ok_def by (metis snd_conv)
  qed
  have new: "sorted_wrt (<) (map fst ?inner') \<and> (\<forall>g\<in>set ?inner'. snd g \<noteq> [])"
  proof
    show "sorted_wrt (<) (map fst ?inner')"
      using inner by (simp add: sorted_map_insert)
    show "\<forall>g\<in>set ?inner'. snd g \<noteq> []"
    proof
      fix g
      assume "g \<in> set ?inner'"
      with set_map_insert [of key "map_at key ?inner @ [a]" ?inner]
      have "g = (key, map_at key ?inner @ [a]) \<or> g \<in> set ?inner"
        by auto
      with inner show "snd g \<noteq> []"
        by auto
    qed
  qed
  have sub: "set (push_sum tag key a cs) \<subseteq> insert (tag, ?inner') (set cs)"
    unfolding push_sum_def Let_def by (rule set_map_insert)
  have "\<forall>p\<in>set (push_sum tag key a cs).
      sorted_wrt (<) (map fst (snd p)) \<and> (\<forall>g\<in>set (snd p). snd g \<noteq> [])"
  proof
    fix p
    assume "p \<in> set (push_sum tag key a cs)"
    with sub have "p = (tag, ?inner') \<or> p \<in> set cs"
      by auto
    then show "sorted_wrt (<) (map fst (snd p)) \<and> (\<forall>g\<in>set (snd p). snd g \<noteq> [])"
    proof
      assume "p = (tag, ?inner')"
      with new show ?thesis by simp
    next
      assume "p \<in> set cs"
      with assms show ?thesis
        unfolding sums_ok_def by blast
    qed
  qed
  moreover have "sorted_wrt (<) (map fst (push_sum tag key a cs))"
    using assms unfolding push_sum_def Let_def sums_ok_def by (simp add: sorted_map_insert)
  ultimately show ?thesis
    unfolding sums_ok_def by simp
qed

lemma tags_push:
  assumes "sorted_wrt (<) (map fst cs)" and "tag \<in> fst ` set cs"
  shows "map fst (push_sum tag key a cs) = map fst cs"
  unfolding push_sum_def Let_def by (rule map_insert_same_keys [OF assms])

lemma sums_step_ok:
  assumes "sums_ok cs" and "map fst cs = sorted_sum_types"
  shows "sums_ok (sums_step a cs) \<and> map fst (sums_step a cs) = sorted_sum_types"
proof -
  have step: "sums_ok (push_sum tag key a cs') \<and> map fst (push_sum tag key a cs') = sorted_sum_types"
    if "sums_ok cs'" and "map fst cs' = sorted_sum_types" and "tag \<in> set sorted_sum_types"
    for tag key cs'
  proof -
    from that(2,3) have "tag \<in> fst ` set cs'"
      by (metis list.set_map)
    moreover from that(1) have "sorted_wrt (<) (map fst cs')"
      by (simp add: sums_ok_def)
    ultimately have "map fst (push_sum tag key a cs') = map fst cs'"
      by (intro tags_push)
    with that(1,2) show ?thesis
      by (simp add: sums_ok_push)
  qed
  have many: "sums_ok (fold (\<lambda>tag. push_sum tag (\<kappa> tag) a) tags cs')
      \<and> map fst (fold (\<lambda>tag. push_sum tag (\<kappa> tag) a) tags cs') = sorted_sum_types"
    if "sums_ok cs'" and "map fst cs' = sorted_sum_types" and "set tags \<subseteq> set sorted_sum_types"
    for tags \<kappa> cs'
    using that
  proof (induction tags arbitrary: cs')
    case Nil
    then show ?case by simp
  next
    case (Cons tag tags)
    from Cons.prems have "sums_ok (push_sum tag (\<kappa> tag) a cs')
        \<and> map fst (push_sum tag (\<kappa> tag) a cs') = sorted_sum_types"
      by (intro step) simp_all
    with Cons.IH [of "push_sum tag (\<kappa> tag) a cs'"] Cons.prems(3) show ?case
      by simp
  qed
  show ?thesis
  proof (cases "is_bkgd a")
    case True
    with step [OF assms, of "''eJPmL''" "''Bkgd''"] show ?thesis
      by (simp add: sums_step_def sorted_sum_types_def)
  next
    case False
    with many [OF assms, of coherent_sum_types] show ?thesis
      by (simp add: sums_step_def sorted_sum_types_def coherent_sum_types_def)
  qed
qed

lemma fold_sums_step_ok:
  assumes "sums_ok cs" and "map fst cs = sorted_sum_types"
  shows "sums_ok (fold sums_step as cs) \<and> map fst (fold sums_step as cs) = sorted_sum_types"
  using assms
proof (induction as arbitrary: cs)
  case Nil
  then show ?case by simp
next
  case (Cons a as)
  from sums_step_ok [OF Cons.prems] Cons.IH [of "sums_step a cs"] show ?case
    by simp
qed

lemma init_sums: "coherent_sums init_maps = map (\<lambda>tag. (tag, [])) sorted_sum_types"
  unfolding init_maps_def coherent_sum_types_def sorted_sum_types_def by simp

lemma cleared_sums:
  "map fst (coherent_sums M) = sorted_sum_types
     \<Longrightarrow> coherent_sums (clear_maps M) = map (\<lambda>tag. (tag, [])) sorted_sum_types"
proof -
  assume "map fst (coherent_sums M) = sorted_sum_types"
  then have "map (\<lambda>tag. (tag, [])) (map fst (coherent_sums M)) = map (\<lambda>tag. (tag, [])) sorted_sum_types"
    by simp
  then show ?thesis
    by (simp add: clear_maps_def split_def comp_def)
qed

lemma sums_ok_cleared: "sums_ok (map (\<lambda>tag. (tag, [])) sorted_sum_types)"
  by (simp add: sums_ok_def sorted_sum_types_def)

lemma filled_sums_ok:
  assumes "fill_maps R (clear_maps M0) = Inr M" and "map fst (coherent_sums M0) = sorted_sum_types"
  shows "sums_ok (coherent_sums M)" and "map fst (coherent_sums M) = sorted_sum_types"
proof -
  have start: "coherent_sums (clear_maps M0) = map (\<lambda>tag. (tag, [])) sorted_sum_types"
    by (rule cleared_sums [OF assms(2)])
  have "sums_ok (coherent_sums M) \<and> map fst (coherent_sums M) = sorted_sum_types"
    unfolding fill_maps_view(1) [OF assms(1)] start
    by (rule fold_sums_step_ok [OF sums_ok_cleared]) (simp add: comp_def)
  then show "sums_ok (coherent_sums M)" and "map fst (coherent_sums M) = sorted_sum_types"
    by simp_all
qed

lemma init_tags: "map fst (coherent_sums init_maps) = sorted_sum_types"
  by (simp add: init_sums comp_def)

lemma sum_columns_tags:
  "sum_columns cs = concat (map (\<lambda>tag. map fst (map_at tag cs)) (map fst cs))"
  by (simp add: sum_columns_def sum_groups_alt map_concat comp_def)

lemma keys_of_tag:
  assumes "sums_ok cs" and "tag \<in> fst ` set cs"
  shows "map fst (map_at tag cs) = sorted_list_of_set {key. group_of cs tag key \<noteq> []}"
proof -
  let ?inner = "map_at tag cs"
  from assms(2) obtain v where "(tag, v) \<in> set cs"
    by auto
  moreover from assms(1) have sorted_cs: "sorted_wrt (<) (map fst cs)"
    by (simp add: sums_ok_def)
  ultimately have entry: "(tag, ?inner) \<in> set cs"
    using map_at_entry [of cs tag v] by simp
  with assms(1) have sorted_inner: "sorted_wrt (<) (map fst ?inner)"
    and nonempty: "\<forall>g\<in>set ?inner. snd g \<noteq> []"
    unfolding sums_ok_def by (metis snd_conv)+
  have keys: "set (map fst ?inner) = {key. group_of cs tag key \<noteq> []}"
  proof (rule set_eqI)
    fix key
    show "key \<in> set (map fst ?inner) \<longleftrightarrow> key \<in> {key. group_of cs tag key \<noteq> []}"
    proof
      assume "key \<in> set (map fst ?inner)"
      then obtain w where w: "(key, w) \<in> set ?inner"
        by auto
      with nonempty have "w \<noteq> []"
        by auto
      with map_at_entry [OF sorted_inner w] show "key \<in> {key. group_of cs tag key \<noteq> []}"
        by (simp add: group_of_def)
    next
      assume "key \<in> {key. group_of cs tag key \<noteq> []}"
      then have "map_at key ?inner \<noteq> []"
        by (simp add: group_of_def)
      with map_at_cases [of key ?inner] have "(key, map_at key ?inner) \<in> set ?inner"
        by simp
      then show "key \<in> set (map fst ?inner)"
        by force
    qed
  qed
  from sorted_inner have "sorted (map fst ?inner)" and "distinct (map fst ?inner)"
    by (simp_all add: strict_sorted_iff)
  then have "sorted_list_of_set (set (map fst ?inner)) = map fst ?inner"
    by (rule sorted_list_of_set.idem_if_sorted_distinct)
  with keys show ?thesis
    by simp
qed

lemma in_keys_in_order:
  assumes "tag \<in> set coherent_sum_types"
  shows "key \<in> set (keys_in_order tag amps) \<longleftrightarrow> (\<exists>a\<in>set amps. routed a tag key)"
  using assms by (auto simp: keys_in_order_def routed_def split: if_splits)

lemma nonempty_groups_filled:
  assumes "fill_maps R (clear_maps M0) = Inr M" and "tag \<in> set coherent_sum_types"
  shows "{key. group_of (coherent_sums M) tag key \<noteq> []} = set (keys_in_order tag (all_amps R))"
  by (auto simp: group_filled [OF assms(1)] filter_empty_conv in_keys_in_order [OF assms(2)])

lemma sum_columns_filled:
  assumes "fill_maps R (clear_maps init_maps) = Inr M"
  shows "sum_columns (coherent_sums M) =
     concat (map (\<lambda>tag. sorted_list_of_set (set (keys_in_order tag (all_amps R))))
               sorted_sum_types)"
proof -
  note ok = filled_sums_ok [OF assms init_tags]
  have "map fst (map_at tag (coherent_sums M))
      = sorted_list_of_set (set (keys_in_order tag (all_amps R)))"
    if "tag \<in> set sorted_sum_types" for tag
  proof -
    from that have "tag \<in> fst ` set (coherent_sums M)"
      using ok(2) by (metis list.set_map)
    moreover from that have "tag \<in> set coherent_sum_types"
      by (auto simp: sorted_sum_types_def coherent_sum_types_def)
    ultimately show ?thesis
      using keys_of_tag [OF ok(1), of tag] nonempty_groups_filled [OF assms, of tag] by simp
  qed
  then show ?thesis
    unfolding sum_columns_tags ok(2) by (simp cong: map_cong)
qed

text \<open>
  Claim C5, as stated, fails: the coherent sums are kept in ordered maps, and iterating
  them visits the keys in ascending order, not in the order of insertion. The amplitudes
  of the example come in the order \<open>p1p0S\<close>, \<open>m1p0S\<close>, \<open>p1ppD\<close>, background; the columns
  of the tag \<open>eJPmL\<close> are \<open>Bkgd\<close>, \<open>m1p0S\<close>, \<open>p1p0S\<close>, \<open>p1ppD\<close>.
\<close>

theorem first_seen_order_counterexample:
  "(case fill_maps example_results (clear_maps init_maps) of
      Inl err \<Rightarrow> False
    | Inr M \<Rightarrow>
        first_seen (keys_in_order ''eJPmL'' (all_amps example_results))
          = [''p1p0S'', ''m1p0S'', ''p1ppD'', ''Bkgd'']
      \<and> map fst (map_at ''eJPmL'' (coherent_sums M)) = [''Bkgd'', ''m1p0S'', ''p1p0S'', ''p1ppD'']
      \<and> sum_columns (coherent_sums M) \<noteq> first_seen_columns example_results)"
  by code_simp

text \<open>
  Claim C5, amended. The coherent-sum columns of the header and of the row of values
  come in the iteration order of the ordered maps: the seven tags in ascending byte-wise
  order (\<open>JP\<close>, \<open>JPL\<close>, \<open>JPmL\<close>, \<open>e\<close>, \<open>eJP\<close>, \<open>eJPL\<close>, \<open>eJPmL\<close>) and under each tag the keys
  of the amplitudes in strictly ascending order. The order is determined by the set of
  keys alone; the order in which the amplitudes were encountered has no influence.
\<close>

theorem sum_columns_ascending:
  assumes "\<forall>a\<in>set (all_amps R). is_bkgd a \<or> well_formed a"
  shows "\<exists>M. fill_maps R (clear_maps init_maps) = Inr M
     \<and> sum_columns (coherent_sums M) =
         concat (map (\<lambda>tag. sorted_list_of_set (set (keys_in_order tag (all_amps R))))
                   sorted_sum_types)
     \<and> (\<forall>out. csv (header_sums (coherent_sums M) out) = csv out @
           concat (map (\<lambda>sum. sum @ '','' @ sum @ ''_err,'') (sum_columns (coherent_sums M))))
     \<and> (\<forall>sd acc out. csv (values_sums sd R acc (coherent_sums M) out) = csv out @
           concat (map (\<lambda>g. sd (fst (intensity R (snd g) acc)) @ '','' @
                            sd (snd (intensity R (snd g) acc)) @ '','')
                     (sum_groups (coherent_sums M))))"
proof -
  obtain M where M: "fill_maps R (clear_maps init_maps) = Inr M"
    using fill_maps_total [OF assms] by blast
  show ?thesis
  proof (intro exI [of _ M] conjI allI)
    show "fill_maps R (clear_maps init_maps) = Inr M"
      by (rule M)
    show "sum_columns (coherent_sums M) =
         concat (map (\<lambda>tag. sorted_list_of_set (set (keys_in_order tag (all_amps R))))
                   sorted_sum_types)"
      by (rule sum_columns_filled [OF M])
  qed (rule csv_header_sums csv_values_sums)+
qed

theorem sum_columns_ascending_witness:
  "\<exists>M. fill_maps example_results (clear_maps init_maps) = Inr M
     \<and> sum_columns (coherent_sums M) =
         [''1p'', ''1pD'', ''1pS'', ''1p0S'', ''1ppD'', ''m'', ''p'', ''m1p'', ''p1p'',
          ''m1pS'', ''p1pD'', ''p1pS'', ''Bkgd'', ''m1p0S'', ''p1p0S'', ''p1ppD'']"
proof -
  have cols: "concat (map (\<lambda>tag. sorted_list_of_set
                (set (keys_in_order tag (all_amps example_results)))) sorted_sum_types) =
         [''1p'', ''1pD'', ''1pS'', ''1p0S'', ''1ppD'', ''m'', ''p'', ''m1p'', ''p1p'',
          ''m1pS'', ''p1pD'', ''p1pS'', ''Bkgd'', ''m1p0S'', ''p1p0S'', ''p1ppD'']"
    by code_simp
  from sum_columns_ascending [OF example_well_formed]
  obtain M where "fill_maps example_results (clear_maps init_maps) = Inr M"
    and "sum_columns (coherent_sums M) =
         concat (map (\<lambda>tag. sorted_list_of_set
           (set (keys_in_order tag (all_amps example_results)))) sorted_sum_types)"
    by blast
  with cols show ?thesis
    by simp
qed

section \<open>The queries made while a row is written\<close>

lemma filter_concat_map_all:
  assumes "\<And>x. \<forall>q\<in>set (g x). P q"
  shows "filter P (concat (map g xs)) = concat (map g xs)"
  using assms by (induction xs) simp_all

lemma filter_concat_map_none:
  assumes "\<And>x. \<forall>q\<in>set (g x). \<not> P q"
  shows "filter P (concat (map g xs)) = []"
  using assms by (induction xs) simp_all

lemma intensity_queries_write_values:
  "filter is_intensity_query (queries (write_values sd R acc M empty_sink)) =
     concat (map (\<lambda>g. [Q_intensity (snd g) acc, Q_intensity (snd g) acc])
               (sum_groups (coherent_sums M)))"
proof -
  have pars: "filter is_intensity_query
      (concat (map (\<lambda>n. if str_find n ''::'' \<noteq> None then [] else [Q_parValue n, Q_parError n])
                 (parNameList R))) = []"
    by (rule filter_concat_map_none) (simp add: is_intensity_query_def)
  have sums: "filter is_intensity_query
      (concat (map (\<lambda>g. [Q_intensity (snd g) acc, Q_intensity (snd g) acc])
                 (sum_groups (coherent_sums M))))
      = concat (map (\<lambda>g. [Q_intensity (snd g) acc, Q_intensity (snd g) acc])
                 (sum_groups (coherent_sums M)))"
    by (rule filter_concat_map_all) (simp add: is_intensity_query_def)
  have pds: "filter is_intensity_query
      (concat (map (\<lambda>p. [Q_phaseDiff (fst (snd p)) (snd (snd p)),
                         Q_phaseDiff (fst (snd p)) (snd (snd p))]) (phase_diffs M))) = []"
    by (rule filter_concat_map_none) (simp add: is_intensity_query_def)
  show ?thesis
    by (simp add: queries_write_values empty_sink_def pars sums pds is_intensity_query_def)
qed

lemma phaseDiff_queries_write_values:
  "filter is_phaseDiff_query (queries (write_values sd R acc M empty_sink)) =
     concat (map (\<lambda>p. [Q_phaseDiff (fst (snd p)) (snd (snd p)),
                       Q_phaseDiff (fst (snd p)) (snd (snd p))]) (phase_diffs M))"
proof -
  have pars: "filter is_phaseDiff_query
      (concat (map (\<lambda>n. if str_find n ''::'' \<noteq> None then [] else [Q_parValue n, Q_parError n])
                 (parNameList R))) = []"
    by (rule filter_concat_map_none) (simp add: is_phaseDiff_query_def)
  have sums: "filter is_phaseDiff_query
      (concat (map (\<lambda>g. [Q_intensity (snd g) acc, Q_intensity (snd g) acc])
                 (sum_groups (coherent_sums M)))) = []"
    by (rule filter_concat_map_none) (simp add: is_phaseDiff_query_def)
  have pds: "filter is_phaseDiff_query
      (concat (map (\<lambda>p. [Q_phaseDiff (fst (snd p)) (snd (snd p)),
                         Q_phaseDiff (fst (snd p)) (snd (snd p))]) (phase_diffs M)))
      = concat (map (\<lambda>p. [Q_phaseDiff (fst (snd p)) (snd (snd p)),
                         Q_phaseDiff (fst (snd p)) (snd (snd p))]) (phase_diffs M))"
    by (rule filter_concat_map_all) (simp add: is_phaseDiff_query_def)
  show ?thesis
    by (simp add: queries_write_values empty_sink_def pars sums pds is_phaseDiff_query_def)
qed

lemma length_concat_pairs: "length (concat (map (\<lambda>x. [f x, g x]) xs)) = 2 * length xs"
  by (induction xs) simp_all

text \<open>
  Claim C6, as stated, fails: the value cell and the error cell of a group each come from
  a query of their own, so the handle is asked twice per coherent-sum group and twice
  per phase-difference pair. For the example the 16 groups cost 32 intensity queries and
  the one pair costs 2 phase-difference queries.
\<close>

theorem one_query_per_group_counterexample:
  "(case fill_maps example_results (clear_maps init_maps) of
      Inl err \<Rightarrow> False
    | Inr M \<Rightarrow>
        length (sum_groups (coherent_sums M)) = 16
      \<and> length (filter is_intensity_query
           (queries (write_values example_show example_results True M empty_sink))) = 32
      \<and> length (phase_diffs M) = 1
      \<and> length (filter is_phaseDiff_query
           (queries (write_values example_show example_results True M empty_sink))) = 2)"
proof -
  have "(case fill_maps example_results (clear_maps init_maps) of
      Inl err \<Rightarrow> False
    | Inr M \<Rightarrow> length (sum_groups (coherent_sums M)) = 16 \<and> length (phase_diffs M) = 1)"
    by code_simp
  then show ?thesis
    by (simp add: intensity_queries_write_values phaseDiff_queries_write_values
          length_concat_pairs split: sum.splits)
qed

text \<open>
  Claim C6, amended. While the values of a row are written, the handle is queried for
  the intensity exactly twice per coherent-sum group, both times with the amplitude list
  of the group and the acceptance flag, and for the phase difference exactly twice per
  pair of the phase-difference map, both times with the two names of the pair; of each
  returned tuple one component is written, the value from the first query and the error
  from the second. The intensity and phase-difference queries are made group by group
  and pair by pair, in the order of the columns.
\<close>

theorem two_queries_per_group:
  "filter is_intensity_query (queries (write_values sd R acc M empty_sink)) =
     concat (map (\<lambda>g. [Q_intensity (snd g) acc, Q_intensity (snd g) acc])
               (sum_groups (coherent_sums M)))
   \<and> filter is_phaseDiff_query (queries (write_values sd R acc M empty_sink)) =
     concat (map (\<lambda>p. [Q_phaseDiff (fst (snd p)) (snd (snd p)),
                       Q_phaseDiff (fst (snd p)) (snd (snd p))]) (phase_diffs M))
   \<and> csv (values_sums sd R acc (coherent_sums M) out) = csv out @
       concat (map (\<lambda>g. sd (fst (intensity R (snd g) acc)) @ '','' @
                        sd (snd (intensity R (snd g) acc)) @ '','')
                 (sum_groups (coherent_sums M)))
   \<and> csv (values_pds sd R (phase_diffs M) out) = csv out @
       concat (map (\<lambda>p. sd (fst (phaseDiff R (fst (snd p)) (snd (snd p)))) @ '','' @
                        sd (snd (phaseDiff R (fst (snd p)) (snd (snd p)))) @ '','')
                 (phase_diffs M))"
  by (simp only: intensity_queries_write_values phaseDiff_queries_write_values
        csv_values_sums csv_values_pds simp_thms)

theorem two_queries_per_group_witness:
  "filter is_phaseDiff_query
     (queries (write_values example_show example_results True
        (filled example_results) empty_sink)) =
     [Q_phaseDiff ''R1::S::p1p0S'' ''R1::S::p1ppD'', Q_phaseDiff ''R1::S::p1p0S'' ''R1::S::p1ppD'']"
proof -
  have "phase_diffs (filled example_results)
      = [(''p1p0S_p1ppD'', (''R1::S::p1p0S'', ''R1::S::p1ppD''))]"
    by code_simp
  with two_queries_per_group
    [of example_show example_results True "filled example_results" empty_sink]
  show ?thesis
    by simp
qed

section \<open>The loop over the files\<close>

lemma file_body_invalid:
  "\<not> valid (open_file file) \<Longrightarrow> file_body open_file sd acc file st = Inr st"
  by (simp add: file_body_def)

lemma file_loop_filter:
  "file_loop open_file sd acc fs st =
     file_loop open_file sd acc (filter (\<lambda>f. valid (open_file f)) fs) st"
  unfolding file_loop_def
  by (induction fs arbitrary: st) (simp_all add: file_body_invalid split: sum.splits)

lemma clear_maps_tags:
  fixes M :: "'r maps"
  assumes "map fst (coherent_sums M) = sorted_sum_types"
  shows "clear_maps M = clear_maps init_maps"
proof (rule maps.equality)
  show "coherent_sums (clear_maps M) = coherent_sums (clear_maps init_maps)"
    by (simp only: cleared_sums [OF assms] cleared_sums [OF init_tags])
qed (simp_all add: clear_maps_def)

lemma filled_eq: "fill_maps R (clear_maps init_maps) = Inr M \<Longrightarrow> filled R = M"
  by (simp add: filled_def)

lemma file_body_valid:
  assumes "valid (open_file file)"
    and "map fst (coherent_sums (fst st)) = sorted_sum_types"
    and "file_body open_file sd acc file st = Inr st'"
  shows "map fst (coherent_sums (fst st')) = sorted_sum_types"
    and "csv (snd st') = csv (snd st)
           @ (if csv (snd st) = [] then header_text (open_file file) else [])
           @ row_text sd acc (open_file file)"
proof -
  let ?R = "open_file file"
  have start: "clear_maps (fst st) = clear_maps init_maps"
    by (rule clear_maps_tags [OF assms(2)])
  from assms(1,3) obtain M where M: "fill_maps ?R (clear_maps init_maps) = Inr M"
    and st': "st' = (M, write_values sd ?R acc M
                (if length (csv (snd st)) = 0 then write_header ?R M (snd st) else snd st))"
    by (auto simp: file_body_def start Let_def split: sum.splits)
  show "map fst (coherent_sums (fst st')) = sorted_sum_types"
    using filled_sums_ok(2) [OF M init_tags] by (simp add: st')
  show "csv (snd st') = csv (snd st)
           @ (if csv (snd st) = [] then header_text ?R else [])
           @ row_text sd acc ?R"
  proof -
    have v: "csv (write_values sd ?R acc M out) = csv out @ row_text sd acc ?R" for out
      unfolding row_text_def filled_eq [OF M] by (rule csv_write_values)
    have h: "csv (write_header ?R M out) = csv out @ header_text ?R" for out
      unfolding header_text_def filled_eq [OF M] by (rule csv_write_header)
    show ?thesis
      by (simp add: st' v h)
  qed
qed

lemma file_body_total:
  assumes "\<forall>a\<in>set (all_amps (open_file file)). is_bkgd a \<or> well_formed a"
  shows "\<exists>st'. file_body open_file sd acc file st = Inr st'"
  using fill_maps_total [OF assms, of "clear_maps (fst st)"]
  by (auto simp: file_body_def Let_def)

lemma file_loop_rows:
  assumes "map fst (coherent_sums (fst st)) = sorted_sum_types"
    and "csv (snd st) \<noteq> []"
    and "file_loop open_file sd acc fs st = Inr st'"
  shows "csv (snd st') = csv (snd st)
           @ concat (map (\<lambda>f. row_text sd acc (open_file f))
                       (filter (\<lambda>f. valid (open_file f)) fs))"
  using assms
proof (induction fs arbitrary: st)
  case Nil
  then show ?case by (simp add: file_loop_def)
next
  case (Cons f fs)
  show ?case
  proof (cases "valid (open_file f)")
    case False
    with Cons.prems(3) have "file_loop open_file sd acc fs st = Inr st'"
      by (simp add: file_loop_def file_body_invalid)
    from Cons.IH [OF Cons.prems(1,2) this] False show ?thesis
      by simp
  next
    case True
    from Cons.prems(3) obtain st1 where
      body: "file_body open_file sd acc f st = Inr st1"
      and rest: "file_loop open_file sd acc fs st1 = Inr st'"
      by (auto simp: file_loop_def split: sum.splits)
    note step = file_body_valid [OF True Cons.prems(1) body]
    from step(2) Cons.prems(2) have csv1: "csv (snd st1) = csv (snd st) @ row_text sd acc (open_file f)"
      by simp
    with Cons.prems(2) have "csv (snd st1) \<noteq> []"
      by simp
    from Cons.IH [OF step(1) this rest] csv1 True show ?thesis
      by simp
  qed
qed

lemma header_text_nonempty: "header_text R \<noteq> []"
  unfolding header_text_def by (rule csv_write_header_nonempty)

lemma file_loop_csv:
  assumes "map fst (coherent_sums (fst st)) = sorted_sum_types"
    and "csv (snd st) = []"
    and "file_loop open_file sd acc fs st = Inr st'"
  shows "csv (snd st') =
     (case filter (\<lambda>f. valid (open_file f)) fs of
        [] \<Rightarrow> []
      | g # gs \<Rightarrow> header_text (open_file g)
                  @ concat (map (\<lambda>f. row_text sd acc (open_file f)) (g # gs)))"
  using assms
proof (induction fs arbitrary: st)
  case Nil
  then show ?case by (simp add: file_loop_def)
next
  case (Cons f fs)
  show ?case
  proof (cases "valid (open_file f)")
    case False
    with Cons.prems(3) have "file_loop open_file sd acc fs st = Inr st'"
      by (simp add: file_loop_def file_body_invalid)
    from Cons.IH [OF Cons.prems(1,2) this] False show ?thesis
      by simp
  next
    case True
    from Cons.prems(3) obtain st1 where
      body: "file_body open_file sd acc f st = Inr st1"
      and rest: "file_loop open_file sd acc fs st1 = Inr st'"
      by (auto simp: file_loop_def split: sum.splits)
    note step = file_body_valid [OF True Cons.prems(1) body]
    from step(2) Cons.prems(2)
    have csv1: "csv (snd st1) = header_text (open_file f) @ row_text sd acc (open_file f)"
      by simp
    with header_text_nonempty [of "open_file f"] have "csv (snd st1) \<noteq> []"
      by simp
    from file_loop_rows [OF step(1) this rest] csv1 True show ?thesis
      by simp
  qed
qed

text \<open>
  Claim C8. A file whose handle is not valid leaves the csv stream and the maps as they
  are (no header, no row, no part of a row) and the loop goes on with the next file: the
  run over a list of files is the run over its valid files. The text written is the
  header of the first valid file followed by the values of each valid file in order, so
  the header comes from the first file that is processed and from no other. The run
  returns whenever the amplitudes of every valid file are background or parseable,
  however many files are invalid.
\<close>

theorem invalid_files_are_skipped:
  "(\<not> valid (open_file file) \<longrightarrow> file_body open_file sd acc file st = Inr st)
   \<and> file_loop open_file sd acc fs st =
       file_loop open_file sd acc (filter (\<lambda>f. valid (open_file f)) fs) st
   \<and> (\<forall>out. extract_fit_results open_file sd files acc = Inr out \<longrightarrow>
        csv out =
          (case filter (\<lambda>f. valid (open_file f)) (words_from [] files) of
             [] \<Rightarrow> []
           | g # gs \<Rightarrow> header_text (open_file g)
                       @ concat (map (\<lambda>f. row_text sd acc (open_file f)) (g # gs))))
   \<and> ((\<forall>f\<in>set (words_from [] files). valid (open_file f) \<longrightarrow>
          (\<forall>a\<in>set (all_amps (open_file f)). is_bkgd a \<or> well_formed a))
        \<longrightarrow> (\<exists>out. extract_fit_results open_file sd files acc = Inr out))"
proof (intro conjI allI impI)
  show "file_body open_file sd acc file st = Inr st" if "\<not> valid (open_file file)"
    using that by (rule file_body_invalid)
  show "file_loop open_file sd acc fs st =
       file_loop open_file sd acc (filter (\<lambda>f. valid (open_file f)) fs) st"
    by (rule file_loop_filter)
next
  fix out
  assume "extract_fit_results open_file sd files acc = Inr out"
  then obtain st' where
    loop: "file_loop open_file sd acc (words_from [] files)
             (init_maps, \<lparr>csv = [], queries = []\<rparr>) = Inr st'"
    and out: "out = snd st'"
    by (auto simp: extract_fit_results_def split: sum.splits)
  from file_loop_csv [OF _ _ loop] show "csv out =
          (case filter (\<lambda>f. valid (open_file f)) (words_from [] files) of
             [] \<Rightarrow> []
           | g # gs \<Rightarrow> header_text (open_file g)
                       @ concat (map (\<lambda>f. row_text sd acc (open_file f)) (g # gs)))"
    by (simp add: out init_tags)
next
  assume wf: "\<forall>f\<in>set (words_from [] files). valid (open_file f) \<longrightarrow>
          (\<forall>a\<in>set (all_amps (open_file f)). is_bkgd a \<or> well_formed a)"
  have "\<exists>st'. file_body open_file sd acc f st0 = Inr st'"
    if "f \<in> set (words_from [] files)" for f st0
  proof (cases "valid (open_file f)")
    case True
    with wf that show ?thesis
      by (intro file_body_total) simp
  next
    case False
    then show ?thesis
      by (simp add: file_body_invalid)
  qed
  then obtain st' where "file_loop open_file sd acc (words_from [] files)
             (init_maps, \<lparr>csv = [], queries = []\<rparr>) = Inr st'"
    unfolding file_loop_def using foldE_total by meson
  then show "\<exists>out. extract_fit_results open_file sd files acc = Inr out"
    by (simp add: extract_fit_results_def)
qed

theorem invalid_files_are_skipped_witness:
  "\<not> valid (example_open ''bad.fit'')
   \<and> file_body example_open example_show True ''bad.fit'' (init_maps, empty_sink)
       = Inr (init_maps, empty_sink)
   \<and> (\<exists>out. extract_fit_results example_open example_show ''bad.fit a.fit bad.fit b.fit'' True
               = Inr out
          \<and> csv out = header_text (example_open ''a.fit'')
                        @ row_text example_show True (example_open ''a.fit'')
                        @ row_text example_show True (example_open ''b.fit''))"
proof -
  let ?files = "''bad.fit a.fit bad.fit b.fit''"
  have bad: "\<not> valid (example_open ''bad.fit'')"
    by (simp add: example_open_def)
  have ws: "words_from [] ?files = [''bad.fit'', ''a.fit'', ''bad.fit'', ''b.fit'']"
    by code_simp
  have good: "valid (example_open ''a.fit'')" "valid (example_open ''b.fit'')"
    by (simp_all add: example_open_def example_results_def)
  have amps: "example_open ''a.fit'' = example_results" "example_open ''b.fit'' = example_results"
    by (simp_all add: example_open_def)
  have wf: "\<forall>f\<in>set (words_from [] ?files). valid (example_open f) \<longrightarrow>
          (\<forall>a\<in>set (all_amps (example_open f)). is_bkgd a \<or> well_formed a)"
    unfolding ws using example_well_formed bad by (simp add: amps)
  note inst = invalid_files_are_skipped
    [of example_open "''bad.fit''" example_show True "(init_maps, empty_sink)" "[]" ?files]
  from inst bad have skip: "file_body example_open example_show True ''bad.fit''
      (init_maps, empty_sink) = Inr (init_maps, empty_sink)"
    by blast
  from inst wf obtain out where
    out: "extract_fit_results example_open example_show ?files True = Inr out"
    by blast
  with inst have "csv out =
          (case filter (\<lambda>f. valid (example_open f)) (words_from [] ?files) of
             [] \<Rightarrow> []
           | g # gs \<Rightarrow> header_text (example_open g)
                       @ concat (map (\<lambda>f. row_text example_show True (example_open f)) (g # gs)))"
    by blast
  then have "csv out = header_text (example_open ''a.fit'')
                        @ row_text example_show True (example_open ''a.fit'')
                        @ row_text example_show True (example_open ''b.fit'')"
    unfolding ws using bad good by simp
  with bad skip out show ?thesis
    by blast
qed

end
